theory Spec2Isabelle
  imports Complex_Main "HOL-Library.Option_ord" "HOL-Library.Product_Lexorder"
    "HOL-Library.Sublist" "HOL-Library.Multiset"
begin

section \<open>PyThermal: the routines of \<open>pythermal/routines.py\<close>\<close>

text \<open>
  Conventions of the embedding.
  \<^item> A Python \<open>int\<close> is an \<^typ>\<open>int\<close>. A value of a NumPy \<open>int32\<close> array is an
    \<^typ>\<open>int\<close> too, and every \<open>int32\<close> operation of the source (\<open>np.sum\<close> with
    \<open>dtype=np.int32\<close>, the difference of two \<open>int32\<close> scalars, \<open>abs\<close>) is followed
    by the wrap-around \<open>i32\<close>. The conversion of Python integers to an \<open>int32\<close>
    array (\<open>np.array\<close> with \<open>dtype=np.int32\<close>) raises \<open>OverflowError\<close> for a value
    outside the \<open>int32\<close> range.
  \<^item> A one-dimensional array is a list, a two-dimensional array a list of rows.
  \<^item> Every exception the source can raise is a constructor of \<open>py_error\<close>, and a
    function that can raise returns \<open>py_error + 'a\<close>.
  \<^item> A \<open>float\<close> or \<open>complex\<close> array element is a \<^typ>\<open>real\<close> or \<^typ>\<open>complex\<close>
    number: rounding is not modelled, and there is no \<open>nan\<close>. Where the source stores
    \<open>-inf\<close> in an array (\<open>naive_thermal\<close>), a \<open>float\<close> is a \<^typ>\<open>real option\<close>
    with \<open>None\<close> for \<open>-inf\<close>.
\<close>

datatype py_error = ValueError | IndexError | TypeError | ZeroDivisionError | OverflowError

subsection \<open>NumPy helpers\<close>

definition i32 :: "int \<Rightarrow> int" where
  "i32 x = (x + 2 ^ 31) mod 2 ^ 32 - 2 ^ 31"

text \<open>The values an \<open>int32\<close> holds.\<close>

definition in_int32 :: "int \<Rightarrow> bool" where
  "in_int32 x = (- (2 ^ 31) \<le> x \<and> x < 2 ^ 31)"

text \<open>\<open>np.array(rows, dtype=np.int32)\<close> for a list of tuples of Python integers, all of
  one length: the two-dimensional array of the same values, and \<open>OverflowError\<close> when a
  value does not fit.\<close>

definition np_array_int32 :: "int list list \<Rightarrow> py_error + int list list" where
  "np_array_int32 rows =
     (if list_all (list_all in_int32) rows then Inr rows else Inl OverflowError)"

text \<open>\<open>np.sum(a, dtype=np.int32)\<close>\<close>

definition np_sum32 :: "int list \<Rightarrow> int" where
  "np_sum32 xs = i32 (sum_list xs)"

text \<open>The remainder of NumPy integers: the sign follows the divisor, and a zero divisor
  gives 0 (with a warning) instead of raising.\<close>

definition np_mod :: "int \<Rightarrow> int \<Rightarrow> int" where
  "np_mod a b = (if b = 0 then 0 else a mod b)"

text \<open>\<open>np.intersect1d(a, b)\<close>: the sorted values, each once, that occur in both arrays.\<close>

definition intersect1d :: "int list \<Rightarrow> int list \<Rightarrow> int list" where
  "intersect1d xs ys = sort (remdups (filter (\<lambda>x. x \<in> set ys) xs))"

text \<open>Reading \<open>a[i]\<close> for an index \<open>i\<close> produced by \<open>range\<close> (never negative).\<close>

definition item :: "'a list \<Rightarrow> nat \<Rightarrow> py_error + 'a" where
  "item xs i = (if i < length xs then Inr (xs ! i) else Inl IndexError)"

text \<open>Writing \<open>m[j, k] = v\<close> for indices produced by \<open>range\<close>.\<close>

definition set_cell :: "'a list list \<Rightarrow> nat \<Rightarrow> nat \<Rightarrow> 'a \<Rightarrow> py_error + 'a list list" where
  "set_cell m j k v =
     (if j < length m \<and> k < length (m ! j) then Inr (m[j := (m ! j)[k := v]])
      else Inl IndexError)"

text \<open>Reading and accumulating at an index that is a computed Python integer: NumPy
  counts a negative index from the end and raises \<open>IndexError\<close> outside
  \<open>[-len, len)\<close>.\<close>

definition np_index :: "nat \<Rightarrow> int \<Rightarrow> py_error + nat" where
  "np_index len i =
     (if 0 \<le> i \<and> i < int len then Inr (nat i)
      else if - int len \<le> i \<and> i < 0 then Inr (nat (i + int len))
      else Inl IndexError)"

text \<open>A \<open>for\<close> loop over a list of values, threading the variables the body updates;
  an exception raised by the body ends the loop.\<close>

fun for_each :: "('a \<Rightarrow> 's \<Rightarrow> py_error + 's) \<Rightarrow> 'a list \<Rightarrow> 's \<Rightarrow> py_error + 's" where
  "for_each body [] s = Inr s"
| "for_each body (x # xs) s =
     (case body x s of Inl e \<Rightarrow> Inl e | Inr s' \<Rightarrow> for_each body xs s')"

subsection \<open>\<open>position_states\<close>\<close>

text \<open>\<open>np.delete(arr, obj)\<close> for an array \<open>obj\<close> of integer indices: every index must
  lie in \<open>[-len, len)\<close>, a negative one counts from the end, and the positions named
  (once or several times) are left out.\<close>

definition np_delete :: "'a list \<Rightarrow> int list \<Rightarrow> py_error + 'a list" where
  "np_delete arr obj =
     (let n = int (length arr)
      in if list_ex (\<lambda>i. i < - n \<or> n \<le> i) obj then Inl IndexError
         else let idx = map (\<lambda>i. nat (if i < 0 then i + n else i)) obj
              in Inr (map (\<lambda>i. arr ! i) (filter (\<lambda>i. i \<notin> set idx) [0..<length arr])))"

text \<open>\<open>itertools.combinations(iterable, r)\<close> for \<open>r \<ge> 0\<close>: the \<open>r\<close>-element
  subsequences, in lexicographic order of the positions.\<close>

fun combinations :: "'a list \<Rightarrow> nat \<Rightarrow> 'a list list" where
  "combinations xs 0 = [[]]"
| "combinations [] (Suc r) = []"
| "combinations (x # xs) (Suc r) = map ((#) x) (combinations xs r) @ combinations xs (Suc r)"

text \<open>\<open>itertools.combinations\<close> raises \<open>ValueError\<close> for a negative \<open>r\<close>.\<close>

definition it_combinations :: "'a list \<Rightarrow> int \<Rightarrow> py_error + 'a list list" where
  "it_combinations xs r = (if r < 0 then Inl ValueError else Inr (combinations xs (nat r)))"

text \<open>\<open>position_states(lat, nop, del_pos)\<close>, for a sequence \<open>lat\<close> of Python integers and
  \<open>del_pos\<close> either \<open>None\<close> or an array of 1-based positions. Both branches end in the
  conversion of the combinations to an \<open>int32\<close> array. (Were \<open>lat\<close> an array of a wider
  integer type, NumPy would cast a value outside the \<open>int32\<close> range instead of raising;
  the statements below are about labels inside the range, where the two agree.)\<close>

definition position_states :: "int list \<Rightarrow> int \<Rightarrow> int list option
    \<Rightarrow> py_error + (int list list \<times> nat)" where
  "position_states lat nop del_pos =
     (case del_pos of
        None \<Rightarrow>
          (case it_combinations lat nop of Inl e \<Rightarrow> Inl e
           | Inr combs \<Rightarrow>
               (case np_array_int32 combs of Inl e \<Rightarrow> Inl e
                | Inr pos_states \<Rightarrow> Inr (pos_states, length pos_states)))
      | Some dp \<Rightarrow>
          (case np_delete lat (map (\<lambda>p. p - 1) dp) of Inl e \<Rightarrow> Inl e
           | Inr lat_del \<Rightarrow>
               (case it_combinations lat_del nop of Inl e \<Rightarrow> Inl e
                | Inr combs \<Rightarrow>
                    (case np_array_int32 combs of Inl e \<Rightarrow> Inl e
                     | Inr pos_states \<Rightarrow> Inr (pos_states, length pos_states)))))"

subsection \<open>\<open>_hamiltonian\<close>\<close>

text \<open>The body of the inner loop: the value written to \<open>ham[j, k]\<close> for the two states
  \<open>pos_states[j]\<close> and \<open>pos_states[k]\<close>. The sums are \<open>int32\<close> scalars and \<open>ndims\<close>
  is a Python integer. For \<open>ndims\<close> in the \<open>int32\<close> range the remainder is an \<open>int32\<close>
  operation in every version of NumPy and is what \<open>np_mod\<close> computes. Outside that
  range the versions differ (NumPy 1 computes the remainder in \<open>int64\<close>, as this
  definition does; NumPy 2 raises \<open>OverflowError\<close> when it evaluates the remainder), so
  every statement below that depends on the value of a cell assumes \<open>ndims\<close> in the
  \<open>int32\<close> range.\<close>

definition ham_cell :: "int \<Rightarrow> int \<Rightarrow> int list \<Rightarrow> int list \<Rightarrow> int" where
  "ham_cell ndims nop sj sk =
     (let c = intersect1d sj sk;
          c_sum = np_sum32 c;
          c_size = int (length c);
          j_sum = np_sum32 sj;
          k_sum = np_sum32 sk
      in if c_size = nop - 1 then
           if i32 \<bar>i32 (j_sum - k_sum)\<bar> = ndims then 1
           else if i32 (k_sum - j_sum) = 1 \<and> \<not> np_mod (i32 (j_sum - c_sum)) ndims = 0 then 1
           else if i32 (j_sum - k_sum) = 1 \<and> \<not> np_mod (i32 (j_sum - c_sum)) ndims = 1 then 1
           else 0
         else 0)"

text \<open>One pass of the inner loop body: \<open>ham[j, k] = ...\<close>.\<close>

definition hamiltonian_body :: "int \<Rightarrow> int \<Rightarrow> int list list \<Rightarrow> nat \<Rightarrow> nat \<Rightarrow> int list list
    \<Rightarrow> py_error + int list list" where
  "hamiltonian_body ndims nop pos_states j k ham =
     (case item pos_states j of Inl e \<Rightarrow> Inl e
      | Inr sj \<Rightarrow>
          (case item pos_states k of Inl e \<Rightarrow> Inl e
           | Inr sk \<Rightarrow> set_cell ham j k (ham_cell ndims nop sj sk)))"

text \<open>\<open>_hamiltonian(start, stop, nos, ndims, nop, pos_states)\<close>, with the global array
  \<open>ham\<close> passed in and returned. \<open>start\<close> and \<open>stop\<close> are positions as \<open>distribute\<close>
  returns them for a process number, never negative.\<close>

definition hamiltonian :: "nat \<Rightarrow> nat \<Rightarrow> nat \<Rightarrow> int \<Rightarrow> int \<Rightarrow> int list list \<Rightarrow> int list list
    \<Rightarrow> py_error + int list list" where
  "hamiltonian start stop nos ndims nop pos_states ham =
     for_each (\<lambda>j. for_each (hamiltonian_body ndims nop pos_states j) [0..<nos])
       [start..<stop] ham"

subsection \<open>\<open>distribute\<close> and \<open>hamiltonian_parallel\<close>\<close>

definition distribute :: "int \<Rightarrow> int \<Rightarrow> int \<Rightarrow> py_error + (int \<times> int)" where
  "distribute n_items n_processes i =
     (if n_processes = 0 then Inl ZeroDivisionError
      else let items_per_process = n_items div n_processes;
               start = i * items_per_process;
               stop = (if i = n_processes - 1 then n_items else items_per_process * (i + 1))
           in Inr (start, stop))"

text \<open>The task of process number \<open>i\<close>.\<close>

definition worker :: "nat \<Rightarrow> nat \<Rightarrow> int \<Rightarrow> int \<Rightarrow> int list list \<Rightarrow> nat \<Rightarrow> int list list
    \<Rightarrow> py_error + int list list" where
  "worker n_processes nos ndims nop pos_states i ham =
     (case distribute (int nos) (int n_processes) (int i) of Inl e \<Rightarrow> Inl e
      | Inr (start, stop) \<Rightarrow> hamiltonian (nat start) (nat stop) nos ndims nop pos_states ham)"

text \<open>\<open>hamiltonian_parallel(lattice, ndims, nop)\<close>. The number of processes,
  \<open>mp.cpu_count()\<close> in the source, is a parameter. The processes share the zero-filled
  array \<open>ham\<close>; the model runs their tasks one after the other in the order of creation
  and returns the array after the last \<open>join\<close>. In the source an exception in a child
  process ends that process only, and the parent returns the array as the children
  left it; here the task of a process is a function that could return an error, and the
  error would end the run. No task does: for every state array and every \<open>ndims\<close> each
  task returns (lemma \<open>worker_rows\<close>), so the case does not arise in the model, and for
  \<open>ndims\<close> in the \<open>int32\<close> range it does not arise in the source either.\<close>

definition hamiltonian_parallel :: "nat \<Rightarrow> int list \<Rightarrow> int \<Rightarrow> int \<Rightarrow> py_error + int list list" where
  "hamiltonian_parallel n_processes lattice ndims nop =
     (case position_states lattice nop None of Inl e \<Rightarrow> Inl e
      | Inr (pos_states, nos) \<Rightarrow>
          for_each (worker n_processes nos ndims nop pos_states) [0..<n_processes]
            (replicate nos (replicate nos 0)))"

subsection \<open>\<open>diagonalize\<close>\<close>

text \<open>\<open>a.argsort()\<close>: the positions of \<open>a\<close> in ascending order of their values. Equal
  values are kept in their order of appearance here; NumPy's default sort leaves their
  order to the implementation.\<close>

definition argsort :: "real list \<Rightarrow> nat list" where
  "argsort a = sort_key (\<lambda>i. a ! i) [0..<length a]"

text \<open>\<open>m[:, index]\<close>: the columns of \<open>m\<close> named by \<open>index\<close>, in that order.\<close>

definition take_columns :: "'a list list \<Rightarrow> nat list \<Rightarrow> 'a list list" where
  "take_columns m index = map (\<lambda>row. map (\<lambda>i. row ! i) index) m"

text \<open>\<open>diagonalize(h)\<close>. The solver \<open>scipy.linalg.eig\<close> is a parameter: it returns the
  array of eigenvalues and the matrix whose columns are the eigenvectors.\<close>

definition diagonalize :: "('m \<Rightarrow> complex list \<times> complex list list) \<Rightarrow> 'm
    \<Rightarrow> real list \<times> complex list list" where
  "diagonalize eig h =
     (let (eigenvalues, eigenvectors) = eig h;
          eigenvalues_real = map Re eigenvalues;
          index = argsort eigenvalues_real;
          eigenvectors_sorted = take_columns eigenvectors index;
          eigenvalues_sorted = map (\<lambda>i. eigenvalues_real ! i) index
      in (eigenvalues_sorted, eigenvectors_sorted))"

subsection \<open>\<open>ncr\<close> and \<open>sum_ncr\<close>\<close>

text \<open>\<open>math.factorial\<close> raises \<open>ValueError\<close> for a negative argument, so \<open>ncr(n, r)\<close>
  raises unless \<open>0 \<le> r \<le> n\<close>.\<close>

definition ncr :: "int \<Rightarrow> int \<Rightarrow> py_error + int" where
  "ncr n r =
     (if n < 0 \<or> r < 0 \<or> n - r < 0 then Inl ValueError
      else Inr (int (fact (nat n) div (fact (nat r) * fact (nat (n - r))))))"

text \<open>\<open>sum(...)\<close> over a generator whose items may raise.\<close>

fun py_sum :: "(py_error + int) list \<Rightarrow> py_error + int" where
  "py_sum [] = Inr 0"
| "py_sum (x # xs) =
     (case x of Inl e \<Rightarrow> Inl e
      | Inr v \<Rightarrow> (case py_sum xs of Inl e \<Rightarrow> Inl e | Inr t \<Rightarrow> Inr (v + t)))"

definition sum_ncr :: "int \<Rightarrow> int \<Rightarrow> py_error + int" where
  "sum_ncr n k = py_sum (map (\<lambda>r. ncr n (int r)) [0..<nat k])"

subsection \<open>\<open>relabel\<close>\<close>

text \<open>The variables of the loop: the two rows of the \<open>int32\<close> array \<open>x\<close>, the list
  \<open>dump\<close> and the list \<open>relabelled_states\<close>, whose rows \<open>[x[0][n], n, x[1][n]]\<close> are
  triples here.\<close>

record relabel_vars =
  x0 :: "int list"
  x1 :: "int list"
  dump :: "int list list"
  relabelled_states :: "(int \<times> int \<times> int) list"

text \<open>\<open>comm = [k for k in state if k in lat_a]\<close>\<close>

definition comm_of :: "int list \<Rightarrow> int list \<Rightarrow> int list" where
  "comm_of lat_a state = filter (\<lambda>k. k \<in> set lat_a) state"

definition relabel_body :: "int \<Rightarrow> int \<Rightarrow> int list \<Rightarrow> int list \<Rightarrow> relabel_vars
    \<Rightarrow> py_error + relabel_vars" where
  "relabel_body nop nol_b lat_a state v =
     (let comm = comm_of lat_a state;
          n = length comm
      in if length (x1 v) \<le> n then Inl IndexError
         else
           let x1' = (x1 v)[n := i32 (x1 v ! n + 1)];
               new = (comm \<notin> set (dump v));
               x0' = (if new then (x0 v)[n := i32 (x0 v ! n + 1)] else x0 v);
               dump' = (if new then dump v @ [comm] else dump v);
               out = relabelled_states v @ [(x0' ! n, int n, x1' ! n)]
           in (case ncr nol_b (nop - int n) of Inl e \<Rightarrow> Inl e
               | Inr c \<Rightarrow>
                   Inr \<lparr>x0 = x0',
                        x1 = (if x1' ! n = c then x1'[n := 0] else x1'),
                        dump = dump',
                        relabelled_states = out\<rparr>))"

text \<open>\<open>relabel(e_states, nop, nol_b, lat_a)\<close>. \<open>np.zeros\<close> raises \<open>ValueError\<close> for the
  negative dimension \<open>nop + 1\<close>.\<close>

definition relabel :: "int list list \<Rightarrow> int \<Rightarrow> int \<Rightarrow> int list
    \<Rightarrow> py_error + (int \<times> int \<times> int) list" where
  "relabel e_states nop nol_b lat_a =
     (if nop + 1 < 0 then Inl ValueError
      else
        (case for_each (relabel_body nop nol_b lat_a) e_states
                \<lparr>x0 = replicate (nat (nop + 1)) 0,
                 x1 = replicate (nat (nop + 1)) 0,
                 dump = [],
                 relabelled_states = []\<rparr> of
           Inl e \<Rightarrow> Inl e
         | Inr v \<Rightarrow> Inr (relabelled_states v)))"

subsection \<open>\<open>density_matrix_a\<close> and \<open>rho_b_pbasis\<close>\<close>

text \<open>\<open>np.vdot(a, b)\<close> of two scalars.\<close>

definition vdot :: "complex \<Rightarrow> complex \<Rightarrow> complex" where
  "vdot a b = cnj a * b"

text \<open>\<open>mat[m][n] += v\<close> for computed indices.\<close>

definition accumulate :: "complex list list \<Rightarrow> int \<Rightarrow> int \<Rightarrow> complex
    \<Rightarrow> py_error + complex list list" where
  "accumulate mat m n v =
     (case np_index (length mat) m of Inl e \<Rightarrow> Inl e
      | Inr mi \<Rightarrow>
          (case np_index (length (mat ! mi)) n of Inl e \<Rightarrow> Inl e
           | Inr ni \<Rightarrow> Inr (mat[mi := (mat ! mi)[ni := mat ! mi ! ni + v]])))"

text \<open>\<open>np.trace(mat.real)\<close> of a square matrix.\<close>

definition np_trace_real :: "complex list list \<Rightarrow> real" where
  "np_trace_real mat = sum_list (map (\<lambda>i. Re (mat ! i ! i)) [0..<length mat])"

text \<open>\<open>warnings.warn(message, category)\<close>: the category must be a subclass of
  \<open>Warning\<close> (or absent); any other object raises \<open>TypeError\<close>. The warning issued is the
  value returned.\<close>

datatype py_object = WarningClass | FloatObject real

definition warnings_warn :: "string \<Rightarrow> py_object option \<Rightarrow> py_error + string" where
  "warnings_warn message category =
     (case category of
        None \<Rightarrow> Inr message
      | Some WarningClass \<Rightarrow> Inr message
      | Some (FloatObject x) \<Rightarrow> Inl TypeError)"

text \<open>The body of the inner loop of \<open>density_matrix_a\<close>. A row of \<open>label\<close> is the triple
  \<open>(label[i][0], label[i][1], label[i][2])\<close>.\<close>

definition density_matrix_a_body :: "(int \<times> int \<times> int) list \<Rightarrow> complex list \<Rightarrow> int
    \<Rightarrow> nat \<Rightarrow> nat \<Rightarrow> complex list list \<Rightarrow> py_error + complex list list" where
  "density_matrix_a_body label e_vec nol_a i j mat =
     (case item label i of Inl e \<Rightarrow> Inl e
      | Inr (ai, ni, bi) \<Rightarrow>
     (case item label j of Inl e \<Rightarrow> Inl e
      | Inr (aj, nj, bj) \<Rightarrow>
          if ni = nj \<and> bi = bj then
            (case sum_ncr nol_a ni of Inl e \<Rightarrow> Inl e
             | Inr si \<Rightarrow>
            (case sum_ncr nol_a nj of Inl e \<Rightarrow> Inl e
             | Inr sj \<Rightarrow>
            (case item e_vec j of Inl e \<Rightarrow> Inl e
             | Inr ej \<Rightarrow>
            (case item e_vec i of Inl e \<Rightarrow> Inl e
             | Inr ei \<Rightarrow> accumulate mat (ai + si - 1) (aj + sj - 1) (vdot ej ei)))))
          else Inr mat))"

text \<open>\<open>density_matrix_a(label, e_vec, nos, nol_a, nop)\<close>: the matrix and the warnings
  issued.\<close>

definition density_matrix_a :: "(int \<times> int \<times> int) list \<Rightarrow> complex list \<Rightarrow> nat \<Rightarrow> int \<Rightarrow> int
    \<Rightarrow> py_error + (complex list list \<times> string list)" where
  "density_matrix_a label e_vec nos nol_a nop =
     (case sum_ncr nol_a (nop + 1) of Inl e \<Rightarrow> Inl e
      | Inr dim_a \<Rightarrow>
     (case for_each (\<lambda>i. for_each (density_matrix_a_body label e_vec nol_a i) [0..<nos])
             [0..<nos] (replicate (nat dim_a) (replicate (nat dim_a) 0)) of
        Inl e \<Rightarrow> Inl e
      | Inr density_mat_a \<Rightarrow>
          (let den_trace_a = np_trace_real density_mat_a
           in if \<bar>den_trace_a - 1\<bar> > 1 / 10 then
                (case warnings_warn ''Trace of density matrix A not 1, Trace=''
                        (Some (FloatObject den_trace_a)) of
                   Inl e \<Rightarrow> Inl e
                 | Inr w \<Rightarrow> Inr (density_mat_a, [w]))
              else Inr (density_mat_a, []))))"

text \<open>The body of the inner loop of \<open>rho_b_pbasis\<close>.\<close>

definition rho_b_pbasis_body :: "(int \<times> int \<times> int) list \<Rightarrow> complex list \<Rightarrow> int \<Rightarrow> int
    \<Rightarrow> nat \<Rightarrow> nat \<Rightarrow> complex list list \<Rightarrow> py_error + complex list list" where
  "rho_b_pbasis_body label e_vec nol_b nop i j rho_b =
     (case item label i of Inl e \<Rightarrow> Inl e
      | Inr (ai, ni, bi) \<Rightarrow>
     (case item label j of Inl e \<Rightarrow> Inl e
      | Inr (aj, nj, bj) \<Rightarrow>
          if ni = nj \<and> ai = aj then
            (case sum_ncr nol_b (nop - ni) of Inl e \<Rightarrow> Inl e
             | Inr si \<Rightarrow>
            (case sum_ncr nol_b (nop - nj) of Inl e \<Rightarrow> Inl e
             | Inr sj \<Rightarrow>
            (case item e_vec j of Inl e \<Rightarrow> Inl e
             | Inr ej \<Rightarrow>
            (case item e_vec i of Inl e \<Rightarrow> Inl e
             | Inr ei \<Rightarrow> accumulate rho_b (bi + si - 1) (bj + sj - 1) (vdot ej ei)))))
          else Inr rho_b))"

text \<open>\<open>rho_b_pbasis(label, e_vec, nos, nol_b, nop)\<close>: the matrix and the lines
  printed.\<close>

definition rho_b_pbasis :: "(int \<times> int \<times> int) list \<Rightarrow> complex list \<Rightarrow> nat \<Rightarrow> int \<Rightarrow> int
    \<Rightarrow> py_error + (complex list list \<times> string list)" where
  "rho_b_pbasis label e_vec nos nol_b nop =
     (case sum_ncr nol_b (nop + 1) of Inl e \<Rightarrow> Inl e
      | Inr dim_b \<Rightarrow>
     (case for_each (\<lambda>i. for_each (rho_b_pbasis_body label e_vec nol_b nop i) [0..<nos])
             [0..<nos] (replicate (nat dim_b) (replicate (nat dim_b) 0)) of
        Inl e \<Rightarrow> Inl e
      | Inr rho_b \<Rightarrow>
          (let tr_rho = np_trace_real rho_b
           in if \<bar>tr_rho - 1\<bar> > 1 / 10 then
                Inr (rho_b, [''WARNING: Trace of density matrix B not 1, Trace=''])
              else Inr (rho_b, []))))"

subsection \<open>\<open>naive_thermal\<close>\<close>

text \<open>The argument of \<open>naive_thermal\<close> is a two-dimensional array of any dtype, and what
  the function does depends on the dtype, so an array carries it. Three are modelled:
  \<^item> an integer array, of \<^typ>\<open>int\<close> elements;
  \<^item> a \<open>float\<close> array, whose elements are \<^typ>\<open>real option\<close>: \<open>Some x\<close> for the
    number \<open>x\<close> and \<open>None\<close> for \<open>-inf\<close>, which the order of \<^typ>\<open>'a option\<close> puts
    below every number;
  \<^item> a \<open>complex\<close> array, the dtype of the density matrices the package computes, whose
    elements are pairs of a real part (a \<open>float\<close> as above) and an imaginary part.
    NumPy orders complex numbers by their real parts and, when these are equal, by their
    imaginary parts: the lexicographic order of pairs.

  Arrays of other dtypes (\<open>bool\<close>, \<open>object\<close>) are not modelled.

  Arrays live in a store, a list of arrays addressed by position, so that a copy is a
  new array and writing to it is visible as a change of the store.\<close>

datatype ndarray =
    IntArray "int list list"
  | FloatArray "real option list list"
  | ComplexArray "(real option \<times> real) list list"

datatype scalar =
    IntScalar int
  | FloatScalar "real option"
  | ComplexScalar "real option \<times> real"

type_synonym store = "ndarray list"

text \<open>\<open>m.diagonal()\<close> of the rows of a two-dimensional array.\<close>

definition diagonal :: "'a list list \<Rightarrow> 'a list" where
  "diagonal m =
     map (\<lambda>i. m ! i ! i) [0..<min (length m) (case m of [] \<Rightarrow> 0 | r # _ \<Rightarrow> length r)]"

text \<open>\<open>a.max()\<close> over the elements \<open>xs\<close> of an array: \<open>ValueError\<close> when there is none.\<close>

definition np_max :: "'a::linorder list \<Rightarrow> py_error + 'a" where
  "np_max xs = (case xs of [] \<Rightarrow> Inl ValueError | x # ys \<Rightarrow> Inr (fold max ys x))"

text \<open>\<open>rho.diagonal().max()\<close> and \<open>rho.max()\<close> for an array of each dtype.\<close>

fun diagonal_max :: "ndarray \<Rightarrow> py_error + scalar" where
  "diagonal_max (IntArray m) =
     (case np_max (diagonal m) of Inl e \<Rightarrow> Inl e | Inr x \<Rightarrow> Inr (IntScalar x))"
| "diagonal_max (FloatArray m) =
     (case np_max (diagonal m) of Inl e \<Rightarrow> Inl e | Inr x \<Rightarrow> Inr (FloatScalar x))"
| "diagonal_max (ComplexArray m) =
     (case np_max (diagonal m) of Inl e \<Rightarrow> Inl e | Inr x \<Rightarrow> Inr (ComplexScalar x))"

fun array_max :: "ndarray \<Rightarrow> py_error + scalar" where
  "array_max (IntArray m) =
     (case np_max (concat m) of Inl e \<Rightarrow> Inl e | Inr x \<Rightarrow> Inr (IntScalar x))"
| "array_max (FloatArray m) =
     (case np_max (concat m) of Inl e \<Rightarrow> Inl e | Inr x \<Rightarrow> Inr (FloatScalar x))"
| "array_max (ComplexArray m) =
     (case np_max (concat m) of Inl e \<Rightarrow> Inl e | Inr x \<Rightarrow> Inr (ComplexScalar x))"

text \<open>\<open>np.copy(s[a])\<close>: the store with the new array, and its address.\<close>

definition np_copy :: "store \<Rightarrow> nat \<Rightarrow> store \<times> nat" where
  "np_copy s a = (s @ [s ! a], length s)"

text \<open>The rows of an array after the value \<open>v\<close> is written to every cell \<open>(i, i)\<close>.\<close>

definition fill_rows :: "'a list list \<Rightarrow> 'a \<Rightarrow> 'a list list" where
  "fill_rows m v = map (\<lambda>i. (m ! i)[i := v]) [0..<length m]"

text \<open>\<open>np.fill_diagonal(s[a], -np.inf)\<close>, writing in place. The value is converted to
  the dtype of the array: \<open>-inf\<close> for a \<open>float\<close> array, \<open>-inf + 0j\<close> for a \<open>complex\<close>
  one, and for an integer array the conversion raises \<open>OverflowError\<close> (\<open>naive_thermal\<close>
  gets here only when the diagonal has an element, so there is a cell to convert
  for).\<close>

definition fill_diagonal_neg_inf :: "store \<Rightarrow> nat \<Rightarrow> py_error + store" where
  "fill_diagonal_neg_inf s a =
     (case s ! a of
        IntArray m \<Rightarrow> Inl OverflowError
      | FloatArray m \<Rightarrow> Inr (s[a := FloatArray (fill_rows m None)])
      | ComplexArray m \<Rightarrow> Inr (s[a := ComplexArray (fill_rows m (None, 0))]))"

text \<open>\<open>naive_thermal(rho)\<close> for the array at address \<open>rho\<close>: the two maxima and the
  store after the call.\<close>

definition naive_thermal :: "store \<Rightarrow> nat \<Rightarrow> py_error + ((scalar \<times> scalar) \<times> store)" where
  "naive_thermal s rho =
     (case diagonal_max (s ! rho) of Inl e \<Rightarrow> Inl e
      | Inr max_diag \<Rightarrow>
          (let (s1, rho_copy) = np_copy s rho
           in (case fill_diagonal_neg_inf s1 rho_copy of Inl e \<Rightarrow> Inl e
               | Inr s2 \<Rightarrow>
                   (case array_max (s2 ! rho_copy) of Inl e \<Rightarrow> Inl e
                    | Inr max_offdiag \<Rightarrow> Inr ((max_diag, max_offdiag), s2)))))"

section \<open>Notions used in the statements\<close>

text \<open>A state whose labels are not negative and whose label sum fits an \<open>int32\<close>, as the
  site numbers \<open>1, \<dots>, nol\<close> of a lattice are.\<close>

definition labels_ok :: "int list \<Rightarrow> bool" where
  "labels_ok s = (list_all (\<lambda>x. 0 \<le> x) s \<and> sum_list s < 2 ^ 31)"

text \<open>The rule of the specification for the entry of two states: they share
  \<open>nop - 1\<close> labels, and either their label sums differ by the row length (a vertical
  hop), or they differ by one and the old position of the moving particle, the sum of
  the first state less the sum of the common labels, is not at the row boundary the hop
  would cross.\<close>

definition hop_allowed :: "int \<Rightarrow> int \<Rightarrow> int list \<Rightarrow> int list \<Rightarrow> bool" where
  "hop_allowed ndims nop si sj =
     (let common = set si \<inter> set sj;
          sum_i = sum_list si;
          sum_j = sum_list sj;
          old = sum_i - \<Sum>common
      in int (card common) = nop - 1 \<and>
         (\<bar>sum_i - sum_j\<bar> = ndims
          \<or> (sum_j - sum_i = 1 \<and> old mod ndims \<noteq> 0)
          \<or> (sum_i - sum_j = 1 \<and> old mod ndims \<noteq> 1)))"

text \<open>Row \<open>j\<close> of the Hamiltonian of a state space, the whole matrix, and the shape of the
  shared array.\<close>

definition ham_row :: "int \<Rightarrow> int \<Rightarrow> int list list \<Rightarrow> nat \<Rightarrow> int list" where
  "ham_row ndims nop ps j = map (ham_cell ndims nop (ps ! j)) ps"

definition ham_matrix :: "int \<Rightarrow> int \<Rightarrow> int list list \<Rightarrow> int list list" where
  "ham_matrix ndims nop ps = map (\<lambda>sj. map (ham_cell ndims nop sj) ps) ps"

definition ham_shape :: "nat \<Rightarrow> int list list \<Rightarrow> bool" where
  "ham_shape nos ham = (length ham = nos \<and> list_all (\<lambda>r. length r = nos) ham)"

text \<open>The bounds \<open>distribute\<close> computes for process \<open>i\<close> of \<open>p\<close>, as natural numbers.\<close>

definition chunk_start :: "nat \<Rightarrow> nat \<Rightarrow> nat \<Rightarrow> nat" where
  "chunk_start n p i = i * (n div p)"

definition chunk_stop :: "nat \<Rightarrow> nat \<Rightarrow> nat \<Rightarrow> nat" where
  "chunk_stop n p i = (if Suc i = p then n else (n div p) * Suc i)"

text \<open>The assembly loop of \<open>hamiltonian_parallel\<close> for a state space \<open>ps\<close> and \<open>p\<close>
  processes, from the zero-filled array.\<close>

definition assemble :: "nat \<Rightarrow> int \<Rightarrow> int \<Rightarrow> int list list \<Rightarrow> py_error + int list list" where
  "assemble p ndims nop ps =
     for_each (worker p (length ps) ndims nop ps) [0..<p]
       (replicate (length ps) (replicate (length ps) 0))"

text \<open>The labels left when the 1-based positions \<open>dp\<close> are struck from the label
  array: those at the 0-based indices \<open>i\<close> with \<open>i + 1\<close> not in \<open>dp\<close>.\<close>

definition kept_labels :: "int list \<Rightarrow> int list \<Rightarrow> int list" where
  "kept_labels lat dp = map (\<lambda>i. lat ! i) (filter (\<lambda>i. int i + 1 \<notin> set dp) [0..<length lat])"

text \<open>For a list of states: the number of states with \<open>n\<close> particles in sub-lattice A,
  and the set of the distinct A-occupation patterns of \<open>n\<close> particles.\<close>

definition class_count :: "int list \<Rightarrow> nat \<Rightarrow> int list list \<Rightarrow> nat" where
  "class_count lat_a n states = length (filter (\<lambda>s. length (comm_of lat_a s) = n) states)"

definition patterns :: "int list \<Rightarrow> nat \<Rightarrow> int list list \<Rightarrow> int list set" where
  "patterns lat_a n states = set (filter (\<lambda>c. length c = n) (map (comm_of lat_a) states))"

text \<open>The record expected for state \<open>i\<close>: the number of distinct patterns of its class
  seen up to and including it, its class, and one more than the number of earlier
  states of its class, counted modulo the number of B-site combinations.\<close>

definition expected_row :: "int list \<Rightarrow> int \<Rightarrow> int \<Rightarrow> int list list \<Rightarrow> nat \<Rightarrow> int \<times> int \<times> int" where
  "expected_row lat_a nop nol_b states i =
     (let n = length (comm_of lat_a (states ! i))
      in (int (card (patterns lat_a n (take (Suc i) states))),
          int n,
          int (class_count lat_a n (take i states) mod (nat nol_b choose (nat nop - n))) + 1))"

text \<open>The loop invariant of \<open>relabel\<close> after the states \<open>done\<close>.\<close>

definition relabel_inv :: "int list \<Rightarrow> int \<Rightarrow> int \<Rightarrow> int list list \<Rightarrow> relabel_vars \<Rightarrow> bool" where
  "relabel_inv lat_a nop nol_b done v =
     (length (x0 v) = nat (nop + 1) \<and> length (x1 v) = nat (nop + 1)
      \<and> set (dump v) = set (map (comm_of lat_a) done)
      \<and> (\<forall>n<nat (nop + 1).
            x0 v ! n = int (card (patterns lat_a n done))
            \<and> x1 v ! n = int (class_count lat_a n done mod (nat nol_b choose (nat nop - n))))
      \<and> relabelled_states v = map (expected_row lat_a nop nol_b done) [0..<length done])"










section \<open>Loops\<close>

lemma for_each_fold:
  assumes "\<And>x s. x \<in> set xs \<Longrightarrow> I s \<Longrightarrow> body x s = Inr (f x s) \<and> I (f x s)" "I s"
  shows "for_each body xs s = Inr (fold f xs s) \<and> I (fold f xs s)"
  using assms by (induction xs arbitrary: s) auto



lemma fold_update_prefix:
  "n \<le> length r \<Longrightarrow> n \<le> length ps \<Longrightarrow>
   fold (\<lambda>k row. row[k := g (ps ! k)]) [0..<n] r = map g (take n ps) @ drop n r"
proof (induction n)
  case 0 then show ?case by simp
next
  case (Suc n)
  then have "fold (\<lambda>k row. row[k := g (ps ! k)]) [0..<Suc n] r
      = (map g (take n ps) @ drop n r)[n := g (ps ! n)]" by simp
  also have "\<dots> = map g (take n ps) @ (drop n r)[0 := g (ps ! n)]"
    using Suc.prems by (simp add: list_update_append)
  also have "(drop n r)[0 := g (ps ! n)] = g (ps ! n) # drop (Suc n) r"
    using Suc.prems by (metis Cons_nth_drop_Suc Suc_le_lessD list_update_code(2))
  also have "map g (take n ps) @ g (ps ! n) # drop (Suc n) r = map g (take (Suc n) ps) @ drop (Suc n) r"
    using Suc.prems by (simp add: take_Suc_conv_app_nth)
  finally show ?case .
qed

lemma fold_row_update:
  "j < length ham \<Longrightarrow>
   fold (\<lambda>k h. h[j := (h ! j)[k := v k]]) ks ham = ham[j := fold (\<lambda>k row. row[k := v k]) ks (ham ! j)]"
  by (induction ks arbitrary: ham) simp_all

lemma ham_shape_update:
  "ham_shape nos ham \<Longrightarrow> length r = nos \<Longrightarrow> ham_shape nos (ham[j := r])"
  by (cases "j < length ham") (auto simp: ham_shape_def list_all_length nth_list_update)

lemma ham_shape_row: "ham_shape nos ham \<Longrightarrow> j < nos \<Longrightarrow> length (ham ! j) = nos"
  by (simp add: ham_shape_def list_all_length)

lemma hamiltonian_row:
  assumes "ham_shape (length ps) ham" "j < length ps"
  shows "for_each (hamiltonian_body ndims nop ps j) [0..<length ps] ham
         = Inr (ham[j := ham_row ndims nop ps j])"
proof -
  let ?f = "\<lambda>k h. h[j := (h ! j)[k := ham_cell ndims nop (ps ! j) (ps ! k)]]"
  have step: "hamiltonian_body ndims nop ps j k h = Inr (?f k h) \<and> ham_shape (length ps) (?f k h)"
    if "k \<in> set [0..<length ps]" "ham_shape (length ps) h" for k h
    using that assms(2)
    by (simp add: hamiltonian_body_def item_def set_cell_def ham_shape_update ham_shape_row)
       (simp add: ham_shape_def)
  have "for_each (hamiltonian_body ndims nop ps j) [0..<length ps] ham
        = Inr (fold ?f [0..<length ps] ham)"
    using for_each_fold [of "[0..<length ps]" "ham_shape (length ps)"
        "hamiltonian_body ndims nop ps j" ?f ham] step assms(1) by blast
  also have "fold ?f [0..<length ps] ham
      = ham[j := fold (\<lambda>k row. row[k := ham_cell ndims nop (ps ! j) (ps ! k)]) [0..<length ps] (ham ! j)]"
    using assms by (intro fold_row_update) (simp add: ham_shape_def)
  also have "fold (\<lambda>k row. row[k := ham_cell ndims nop (ps ! j) (ps ! k)]) [0..<length ps] (ham ! j)
      = ham_row ndims nop ps j"
    using fold_update_prefix [of "length ps" "ham ! j" ps "ham_cell ndims nop (ps ! j)"]
      ham_shape_row [OF assms] by (simp add: ham_row_def)
  finally show ?thesis .
qed

lemma fold_rows_nth:
  "i < length h \<Longrightarrow>
   fold (\<lambda>j h. h[j := g j]) js h ! i = (if i \<in> set js then g i else h ! i)"
  by (induction js arbitrary: h) (auto simp: nth_list_update)

lemma fold_rows_length: "length (fold (\<lambda>j h. h[j := g j]) js h) = length h"
  by (induction js arbitrary: h) auto

lemma hamiltonian_rows:
  assumes "ham_shape (length ps) ham" "stop \<le> length ps"
  shows "hamiltonian start stop (length ps) ndims nop ps ham
         = Inr (fold (\<lambda>j h. h[j := ham_row ndims nop ps j]) [start..<stop] ham)
         \<and> ham_shape (length ps) (fold (\<lambda>j h. h[j := ham_row ndims nop ps j]) [start..<stop] ham)"
  unfolding hamiltonian_def
proof (rule for_each_fold [where I = "ham_shape (length ps)"])
  fix j h assume "j \<in> set [start..<stop]" "ham_shape (length ps) h"
  then show "for_each (hamiltonian_body ndims nop ps j) [0..<length ps] h = Inr (h[j := ham_row ndims nop ps j])
      \<and> ham_shape (length ps) (h[j := ham_row ndims nop ps j])"
    using assms(2) by (simp add: hamiltonian_row ham_shape_update ham_row_def)
qed (rule assms)




lemma distribute_nat:
  assumes "0 < p"
  shows "distribute (int n) (int p) (int i) = Inr (int (chunk_start n p i), int (chunk_stop n p i))"
proof -
  have "(int i = int p - 1) = (Suc i = p)" using assms by auto
  then show ?thesis
    using assms by (simp add: distribute_def chunk_start_def chunk_stop_def zdiv_int Let_def algebra_simps)
qed

lemma chunk_stop_le: "i < p \<Longrightarrow> chunk_stop n p i \<le> n"
proof -
  assume "i < p"
  then have "(n div p) * Suc i \<le> (n div p) * p" by (intro mult_le_mono2) simp
  also have "\<dots> \<le> n" by simp
  finally show ?thesis by (simp add: chunk_stop_def)
qed

lemma chunk_start_le_stop: "i < p \<Longrightarrow> chunk_start n p i \<le> chunk_stop n p i"
proof -
  assume a: "i < p"
  have "i * (n div p) \<le> p * (n div p)" using a by simp
  also have "\<dots> \<le> n" by simp
  finally show ?thesis by (simp add: chunk_start_def chunk_stop_def)
qed

lemma chunk_contiguous: "Suc i < p \<Longrightarrow> chunk_start n p (Suc i) = chunk_stop n p i"
  by (simp add: chunk_start_def chunk_stop_def)

lemma chunk_cover:
  assumes "0 < p" "j < n"
  shows "\<exists>i<p. chunk_start n p i \<le> j \<and> j < chunk_stop n p i"
proof (cases "j div (n div p) < p - 1 \<and> 0 < n div p")
  case True
  let ?q = "n div p" and ?i = "j div (n div p)"
  have "?i * ?q \<le> j" by simp
  moreover have "j < ?q * Suc ?i" using True by (simp add: dividend_less_times_div)
  moreover have "Suc ?i \<noteq> p" "?i < p" using True by auto
  ultimately have "?i < p \<and> chunk_start n p ?i \<le> j \<and> j < chunk_stop n p ?i"
    by (simp add: chunk_start_def chunk_stop_def)
  then show ?thesis by blast
next
  case False
  have "(p - 1) * (n div p) \<le> j"
  proof (cases "0 < n div p")
    case True
    with False have "p - 1 \<le> j div (n div p)" by simp
    then have "(p - 1) * (n div p) \<le> (j div (n div p)) * (n div p)" by simp
    also have "\<dots> \<le> j" by simp
    finally show ?thesis .
  qed simp
  then show ?thesis using assms
    by (intro exI [of _ "p - 1"]) (simp add: chunk_start_def chunk_stop_def)
qed

lemma chunk_start_mono: "i \<le> i' \<Longrightarrow> chunk_start n p i \<le> chunk_start n p i'"
  by (simp add: chunk_start_def)

lemma chunk_disjoint:
  assumes "i < i'" "i' < p" "chunk_start n p i \<le> j" "j < chunk_stop n p i"
  shows "\<not> chunk_start n p i' \<le> j"
proof -
  have "chunk_stop n p i = chunk_start n p (Suc i)" using assms by (simp add: chunk_contiguous)
  also have "\<dots> \<le> chunk_start n p i'" using assms by (intro chunk_start_mono) simp
  finally show ?thesis using assms by simp
qed

lemma worker_rows:
  assumes "ham_shape (length ps) ham" "i < p"
  shows "worker p (length ps) ndims nop ps i ham
         = Inr (fold (\<lambda>j h. h[j := ham_row ndims nop ps j])
                  [chunk_start (length ps) p i..<chunk_stop (length ps) p i] ham)
         \<and> ham_shape (length ps) (fold (\<lambda>j h. h[j := ham_row ndims nop ps j])
                  [chunk_start (length ps) p i..<chunk_stop (length ps) p i] ham)"
  using assms hamiltonian_rows [OF assms(1) chunk_stop_le [OF assms(2)]]
  by (simp add: worker_def distribute_nat)

lemma workers_rows:
  assumes "ham_shape (length ps) ham" "\<forall>i\<in>set ws. i < p"
  shows "\<exists>ham'. for_each (worker p (length ps) ndims nop ps) ws ham = Inr ham'
           \<and> ham_shape (length ps) ham'
           \<and> (\<forall>j<length ps. ham' ! j =
                 (if \<exists>i\<in>set ws. chunk_start (length ps) p i \<le> j \<and> j < chunk_stop (length ps) p i
                  then ham_row ndims nop ps j else ham ! j))"
  using assms
proof (induction ws arbitrary: ham)
  case Nil
  then show ?case by simp
next
  case (Cons w ws)
  let ?h = "fold (\<lambda>j h. h[j := ham_row ndims nop ps j])
                  [chunk_start (length ps) p w..<chunk_stop (length ps) p w] ham"
  have w: "worker p (length ps) ndims nop ps w ham = Inr ?h" "ham_shape (length ps) ?h"
    using worker_rows [of ps ham w p ndims nop] Cons.prems by simp_all
  obtain ham' where h: "for_each (worker p (length ps) ndims nop ps) ws ?h = Inr ham'"
      "ham_shape (length ps) ham'"
      "\<forall>j<length ps. ham' ! j =
          (if \<exists>i\<in>set ws. chunk_start (length ps) p i \<le> j \<and> j < chunk_stop (length ps) p i
           then ham_row ndims nop ps j else ?h ! j)"
    using Cons.IH [OF w(2)] Cons.prems(2) by auto
  have "ham' ! j = (if \<exists>i\<in>set (w # ws). chunk_start (length ps) p i \<le> j \<and> j < chunk_stop (length ps) p i
           then ham_row ndims nop ps j else ham ! j)" if "j < length ps" for j
  proof -
    have "j < length ham" using that Cons.prems(1) by (simp add: ham_shape_def)
    then show ?thesis using h(3) that by (auto simp: fold_rows_nth)
  qed
  then show ?case using w(1) h(1,2) by simp
qed

lemma ham_shape_zeros: "ham_shape n (replicate n (replicate n 0))"
  by (simp add: ham_shape_def list_all_length)

lemma workers_all:
  assumes "0 < p"
  shows "for_each (worker p (length ps) ndims nop ps) [0..<p] (replicate (length ps) (replicate (length ps) 0))
         = Inr (ham_matrix ndims nop ps)"
proof -
  obtain ham' where h: "for_each (worker p (length ps) ndims nop ps) [0..<p]
        (replicate (length ps) (replicate (length ps) 0)) = Inr ham'"
      "ham_shape (length ps) ham'"
      "\<forall>j<length ps. ham' ! j =
          (if \<exists>i\<in>set [0..<p]. chunk_start (length ps) p i \<le> j \<and> j < chunk_stop (length ps) p i
           then ham_row ndims nop ps j else replicate (length ps) (replicate (length ps) 0) ! j)"
    using workers_rows [OF ham_shape_zeros, of "[0..<p]" p ps ndims nop] by auto
  have "ham' ! j = ham_matrix ndims nop ps ! j" if "j < length ps" for j
  proof -
    have "\<exists>i\<in>set [0..<p]. chunk_start (length ps) p i \<le> j \<and> j < chunk_stop (length ps) p i"
      using chunk_cover [OF assms that] by auto
    then show ?thesis using h(3) that by (simp add: ham_matrix_def ham_row_def)
  qed
  moreover have "length ham' = length (ham_matrix ndims nop ps)"
    using h(2) by (simp add: ham_shape_def ham_matrix_def)
  ultimately have "ham' = ham_matrix ndims nop ps"
    by (intro nth_equalityI) (simp_all add: ham_matrix_def)
  then show ?thesis using h(1) by simp
qed

lemma hamiltonian_parallel_matrix:
  assumes "0 < p"
  shows "hamiltonian_parallel p lattice ndims nop =
     (case position_states lattice nop None of Inl e \<Rightarrow> Inl e
      | Inr (ps, nos) \<Rightarrow> Inr (ham_matrix ndims nop ps))"
proof (cases "position_states lattice nop None")
  case (Inl e)
  then show ?thesis by (simp add: hamiltonian_parallel_def)
next
  case (Inr r)
  obtain ps nos where r: "r = (ps, nos)" by (cases r)
  have "nos = length ps" using Inr r
    by (auto simp: position_states_def split: sum.splits)
  then show ?thesis using Inr r workers_all [OF assms] by (simp add: hamiltonian_parallel_def)
qed

section \<open>The entries of the Hamiltonian\<close>

lemma i32_id: "- (2 ^ 31) \<le> x \<Longrightarrow> x < 2 ^ 31 \<Longrightarrow> i32 x = x"
  by (simp add: i32_def)

lemma sum_list_intersect1d: "sum_list (intersect1d xs ys) = \<Sum>(set xs \<inter> set ys)"
proof -
  have "sum_list (intersect1d xs ys) = sum_list (remdups (filter (\<lambda>x. x \<in> set ys) xs))"
    unfolding intersect1d_def by (metis mset_sort sum_mset_sum_list)
  also have "\<dots> = \<Sum>(set (filter (\<lambda>x. x \<in> set ys) xs))"
    using sum_list_distinct_conv_sum_set [of "remdups (filter (\<lambda>x. x \<in> set ys) xs)" "\<lambda>x. x"]
    by simp
  also have "set (filter (\<lambda>x. x \<in> set ys) xs) = set xs \<inter> set ys" by auto
  finally show ?thesis .
qed

lemma length_intersect1d: "length (intersect1d xs ys) = card (set xs \<inter> set ys)"
proof -
  have "set (filter (\<lambda>x. x \<in> set ys) xs) = set xs \<inter> set ys" by auto
  then show ?thesis
    unfolding intersect1d_def by (simp add: length_remdups_card_conv)
qed

lemma sum_set_le_sum_list:
  fixes xs :: "int list"
  shows "list_all (\<lambda>x. 0 \<le> x) xs \<Longrightarrow> \<Sum>(set xs) \<le> sum_list xs"
proof (induction xs)
  case Nil then show ?case by simp
next
  case (Cons x xs)
  then show ?case by (cases "x \<in> set xs") (auto simp: insert_absorb)
qed

lemma common_sum_bounds:
  fixes xs ys :: "int list"
  assumes "list_all (\<lambda>x. 0 \<le> x) xs"
  shows "0 \<le> \<Sum>(set xs \<inter> set ys)" "\<Sum>(set xs \<inter> set ys) \<le> sum_list xs"
proof -
  have nn: "\<forall>x\<in>set xs. 0 \<le> x" using assms by (simp add: list_all_iff)
  show "0 \<le> \<Sum>(set xs \<inter> set ys)" by (rule sum_nonneg) (use nn in auto)
  have "\<Sum>(set xs \<inter> set ys) \<le> \<Sum>(set xs)"
    by (rule sum_mono2) (use nn in auto)
  also have "\<dots> \<le> sum_list xs" using assms by (rule sum_set_le_sum_list)
  finally show "\<Sum>(set xs \<inter> set ys) \<le> sum_list xs" .
qed

lemma labels_ok_sum: "labels_ok s \<Longrightarrow> 0 \<le> sum_list s \<and> sum_list s < 2 ^ 31"
  by (auto simp: labels_ok_def list_all_iff intro: sum_list_nonneg)

lemma ham_cell_hop_allowed:
  assumes "0 < ndims" "labels_ok sj" "labels_ok sk"
  shows "ham_cell ndims nop sj sk = (if hop_allowed ndims nop sj sk then 1 else 0)"
proof -
  let ?c = "\<Sum>(set sj \<inter> set sk)"
  have j: "0 \<le> sum_list sj" "sum_list sj < 2 ^ 31" and k: "0 \<le> sum_list sk" "sum_list sk < 2 ^ 31"
    using assms labels_ok_sum by auto
  have c: "0 \<le> ?c" "?c \<le> sum_list sj"
    using common_sum_bounds [of sj sk] assms(2) by (auto simp: labels_ok_def)
  have s: "np_sum32 sj = sum_list sj" "np_sum32 sk = sum_list sk" "np_sum32 (intersect1d sj sk) = ?c"
    using j k c by (simp_all add: np_sum32_def sum_list_intersect1d i32_id)
  have d: "i32 (sum_list sj - sum_list sk) = sum_list sj - sum_list sk"
      "i32 (sum_list sk - sum_list sj) = sum_list sk - sum_list sj"
      "i32 (sum_list sj - ?c) = sum_list sj - ?c"
      "i32 \<bar>sum_list sj - sum_list sk\<bar> = \<bar>sum_list sj - sum_list sk\<bar>"
    using j k c by (simp_all add: i32_id)
  have one: "i32 1 = 1" by (simp add: i32_def)
  show ?thesis
    using assms(1)
    by (auto simp: ham_cell_def hop_allowed_def Let_def s d one length_intersect1d np_mod_def)
qed

lemma mod_edge_shift:
  fixes x n :: int
  assumes "2 \<le> n"
  shows "(x mod n = 0) = ((x + 1) mod n = 1)"
proof
  assume "x mod n = 0"
  then have "(x + 1) mod n = (0 + 1) mod n" by (metis mod_add_left_eq)
  then show "(x + 1) mod n = 1" using assms by simp
next
  assume "(x + 1) mod n = 1"
  then have "(x + 1 - 1) mod n = (1 - 1) mod n" by (metis mod_diff_left_eq)
  then show "x mod n = 0" by simp
qed

lemma hop_allowed_sym:
  assumes "0 < ndims"
  shows "hop_allowed ndims nop si sj = hop_allowed ndims nop sj si"
proof (cases "ndims = 1")
  case True
  then show ?thesis by (auto simp: hop_allowed_def Let_def Int_commute)
next
  case False
  then have n: "2 \<le> ndims" using assms by simp
  let ?c = "\<Sum>(set si \<inter> set sj)"
  have e: "sum_list sj - sum_list si = 1 \<Longrightarrow>
      ((sum_list si - ?c) mod ndims \<noteq> 0) = ((sum_list sj - ?c) mod ndims \<noteq> 1)"
    using mod_edge_shift [OF n, of "sum_list si - ?c"] by (simp add: algebra_simps)
  have e': "sum_list si - sum_list sj = 1 \<Longrightarrow>
      ((sum_list si - ?c) mod ndims \<noteq> 1) = ((sum_list sj - ?c) mod ndims \<noteq> 0)"
    using mod_edge_shift [OF n, of "sum_list sj - ?c"] by (simp add: algebra_simps)
  have a: "\<bar>sum_list si - sum_list sj\<bar> = \<bar>sum_list sj - sum_list si\<bar>" by simp
  show ?thesis
    unfolding hop_allowed_def Let_def Int_commute [of "set sj" "set si"] a
    using e e' by auto
qed

lemma hop_allowed_irrefl: "0 < ndims \<Longrightarrow> \<not> hop_allowed ndims nop s s"
  by (simp add: hop_allowed_def Let_def)

lemma assemble_matrix: "0 < p \<Longrightarrow> assemble p ndims nop ps = Inr (ham_matrix ndims nop ps)"
  unfolding assemble_def by (rule workers_all)

lemma hamiltonian_parallel_assemble:
  "hamiltonian_parallel p lattice ndims nop =
     (case position_states lattice nop None of Inl e \<Rightarrow> Inl e
      | Inr (ps, nos) \<Rightarrow> assemble p ndims nop ps)"
proof (cases "position_states lattice nop None")
  case (Inl e)
  then show ?thesis by (simp add: hamiltonian_parallel_def)
next
  case (Inr r)
  obtain ps nos where r: "r = (ps, nos)" by (cases r)
  have "nos = length ps" using Inr r
    by (auto simp: position_states_def split: sum.splits)
  then show ?thesis using Inr r by (simp add: hamiltonian_parallel_def assemble_def)
qed

lemma ham_matrix_nth:
  "j < length ps \<Longrightarrow> k < length ps \<Longrightarrow>
   ham_matrix ndims nop ps ! j ! k = ham_cell ndims nop (ps ! j) (ps ! k)"
  by (simp add: ham_matrix_def)

text \<open>
  Claim C1. For a state space \<open>ps\<close> whose states have non-negative labels with sums in
  the \<open>int32\<close> range, a lattice of row length \<open>ndims > 0\<close>, itself in the \<open>int32\<close>
  range, and any number of worker
  processes, the assembly returns a matrix whose entry \<open>(j, k)\<close> is 1 exactly when the
  rule \<open>hop_allowed\<close> of the specification holds for the states \<open>j\<close> and \<open>k\<close>: they
  share \<open>nop - 1\<close> labels and the hop is vertical, or horizontal without crossing a row
  boundary. In every other case the entry is 0.
\<close>
theorem hamiltonian_entry_rule:
  assumes "0 < p" "0 < ndims" "ndims < 2 ^ 31"
    and "list_all labels_ok ps" "j < length ps" "k < length ps"
  shows "\<exists>H. assemble p ndims nop ps = Inr H \<and>
             H ! j ! k = (if hop_allowed ndims nop (ps ! j) (ps ! k) then 1 else 0)"
proof -
  have "labels_ok (ps ! j)" "labels_ok (ps ! k)"
    using assms(4-6) by (simp_all add: list_all_length)
  then have "ham_cell ndims nop (ps ! j) (ps ! k)
      = (if hop_allowed ndims nop (ps ! j) (ps ! k) then 1 else 0)"
    using assms(2) by (rule_tac ham_cell_hop_allowed)
  then show ?thesis
    using assemble_matrix [OF assms(1)] ham_matrix_nth [OF assms(5,6)] by simp
qed

theorem hamiltonian_entry_rule_witness:
  "\<exists>H. assemble 2 2 2 [[1, 2], [1, 3], [1, 4], [2, 3], [2, 4], [3, 4]] = Inr H \<and>
        H ! 0 ! 2 = 1 \<and> H ! 0 ! 1 = 0"
proof -
  let ?ps = "[[1, 2], [1, 3], [1, 4], [2, 3], [2, 4], [3, 4]] :: int list list"
  have ok: "list_all labels_ok ?ps" by (simp add: labels_ok_def)
  have a: "hop_allowed 2 2 (?ps ! 0) (?ps ! 2)" by (simp add: hop_allowed_def)
  have b: "\<not> hop_allowed 2 2 (?ps ! 0) (?ps ! 1)" by (simp add: hop_allowed_def)
  obtain H where H: "assemble 2 2 2 ?ps = Inr H"
      "H ! 0 ! 2 = (if hop_allowed 2 2 (?ps ! 0) (?ps ! 2) then 1 else 0)"
    using hamiltonian_entry_rule [of 2 2 ?ps 0 2 2] ok by auto
  obtain H' where H': "assemble 2 2 2 ?ps = Inr H'"
      "H' ! 0 ! 1 = (if hop_allowed 2 2 (?ps ! 0) (?ps ! 1) then 1 else 0)"
    using hamiltonian_entry_rule [of 2 2 ?ps 0 1 2] ok by auto
  have "H' = H" using H(1) H'(1) by simp
  then show ?thesis using H H' a b by simp
qed

text \<open>
  Claim C2. For a state space \<open>ps\<close> whose states have non-negative labels with sums in
  the \<open>int32\<close> range, a lattice of row length \<open>ndims > 0\<close> and any number of worker
  processes, the assembled matrix is symmetric and its diagonal is zero.
\<close>
theorem hamiltonian_symmetric_zero_diagonal:
  assumes "0 < p" "0 < ndims" "list_all labels_ok ps"
  shows "\<exists>H. assemble p ndims nop ps = Inr H \<and>
             (\<forall>j<length ps. \<forall>k<length ps. H ! j ! k = H ! k ! j) \<and>
             (\<forall>j<length ps. H ! j ! j = 0)"
proof -
  have cell: "ham_cell ndims nop (ps ! j) (ps ! k)
      = (if hop_allowed ndims nop (ps ! j) (ps ! k) then 1 else 0)"
    if "j < length ps" "k < length ps" for j k
    using that assms(2,3) by (intro ham_cell_hop_allowed) (simp_all add: list_all_length)
  have sym: "ham_matrix ndims nop ps ! j ! k = ham_matrix ndims nop ps ! k ! j"
    if "j < length ps" "k < length ps" for j k
    using that cell hop_allowed_sym [OF assms(2), of nop "ps ! j" "ps ! k"]
    by (simp add: ham_matrix_nth)
  have diag: "ham_matrix ndims nop ps ! j ! j = 0" if "j < length ps" for j
    using that cell hop_allowed_irrefl [OF assms(2)] by (simp add: ham_matrix_nth)
  show ?thesis using assemble_matrix [OF assms(1)] sym diag by simp
qed

theorem hamiltonian_symmetric_zero_diagonal_witness:
  "\<exists>H. assemble 2 2 2 [[1, 2], [1, 3], [1, 4], [2, 3], [2, 4], [3, 4]] = Inr H \<and>
        H ! 0 ! 2 = H ! 2 ! 0 \<and> H ! 3 ! 3 = 0"
proof -
  let ?ps = "[[1, 2], [1, 3], [1, 4], [2, 3], [2, 4], [3, 4]] :: int list list"
  have ok: "list_all labels_ok ?ps" by (simp add: labels_ok_def)
  show ?thesis
    using hamiltonian_symmetric_zero_diagonal [of 2 2 ?ps 2] ok by auto
qed


text \<open>
  Claim C7. Let \<open>ndims\<close> be in the \<open>int32\<close> range and \<open>ps\<close> an \<open>int32\<close> array of
  states. The matrix does not depend on the number of processes: for every \<open>p > 0\<close>
  the run returns the matrix whose cell \<open>(j, k)\<close> is the value \<open>ham_cell\<close> of the
  states \<open>j\<close> and \<open>k\<close>. The process \<open>i\<close> of \<open>p\<close> writes that value to every cell of
  the rows in the range \<open>[start, stop)\<close> that \<open>distribute\<close> gives it and leaves every
  other row of the shared array as it was. For \<open>n\<close> items, the ranges lie inside
  \<open>[0, n)\<close>; the first range starts at 0, each range starts where the one before stops
  and has \<open>n div p\<close> items, the last one stops at \<open>n\<close> and takes the remainder as
  well, and every row belongs to exactly one range.
\<close>
theorem partition_not_observable:
  assumes "0 < p" "0 < q" "in_int32 ndims" "list_all (list_all in_int32) ps"
  shows "hamiltonian_parallel p lattice ndims nop = hamiltonian_parallel q lattice ndims nop
    \<and> hamiltonian_parallel p lattice ndims nop
        = (case position_states lattice nop None of Inl e \<Rightarrow> Inl e
           | Inr (states, nos) \<Rightarrow> Inr (ham_matrix ndims nop states))
    \<and> assemble p ndims nop ps = assemble q ndims nop ps
    \<and> assemble p ndims nop ps = Inr (ham_matrix ndims nop ps)
    \<and> (\<forall>i<p. \<forall>ham. ham_shape (length ps) ham \<longrightarrow>
          (\<exists>start stop ham'.
             distribute (int (length ps)) (int p) (int i) = Inr (int start, int stop)
             \<and> worker p (length ps) ndims nop ps i ham = Inr ham'
             \<and> ham_shape (length ps) ham'
             \<and> (\<forall>j<length ps. ham' ! j =
                   (if start \<le> j \<and> j < stop then ham_row ndims nop ps j else ham ! j))))
    \<and> (\<forall>i<p. \<exists>start stop.
          distribute (int n) (int p) (int i) = Inr (int start, int stop)
          \<and> start \<le> stop \<and> stop \<le> n
          \<and> (i = 0 \<longrightarrow> start = 0)
          \<and> (Suc i = p \<longrightarrow> stop = n \<and> stop - start = n div p + n mod p)
          \<and> (Suc i < p \<longrightarrow> stop - start = n div p
                \<and> (\<exists>stop'. distribute (int n) (int p) (int (Suc i)) = Inr (int stop, stop'))))
    \<and> (\<forall>j<n. \<exists>!i. i < p \<and> (\<exists>start stop.
          distribute (int n) (int p) (int i) = Inr (start, stop)
          \<and> start \<le> int j \<and> int j < stop))"
proof (intro conjI allI impI)
  show "hamiltonian_parallel p lattice ndims nop = hamiltonian_parallel q lattice ndims nop"
    using assms(1,2) by (simp add: hamiltonian_parallel_assemble assemble_matrix split: sum.splits)
  show "hamiltonian_parallel p lattice ndims nop
        = (case position_states lattice nop None of Inl e \<Rightarrow> Inl e
           | Inr (states, nos) \<Rightarrow> Inr (ham_matrix ndims nop states))"
    using assms(1) by (rule hamiltonian_parallel_matrix)
  show "assemble p ndims nop ps = assemble q ndims nop ps"
    using assms(1,2) by (simp add: assemble_matrix)
  show "assemble p ndims nop ps = Inr (ham_matrix ndims nop ps)"
    using assms(1) by (rule assemble_matrix)
next
  fix i ham assume i: "i < p" and shape: "ham_shape (length ps) ham"
  let ?start = "chunk_start (length ps) p i" and ?stop = "chunk_stop (length ps) p i"
  let ?ham' = "fold (\<lambda>j h. h[j := ham_row ndims nop ps j]) [?start..<?stop] ham"
  have d: "distribute (int (length ps)) (int p) (int i) = Inr (int ?start, int ?stop)"
    using assms(1) by (rule distribute_nat)
  have w: "worker p (length ps) ndims nop ps i ham = Inr ?ham'" "ham_shape (length ps) ?ham'"
    using worker_rows [OF shape i] by simp_all
  have "?ham' ! j = (if ?start \<le> j \<and> j < ?stop then ham_row ndims nop ps j else ham ! j)"
    if "j < length ps" for j
  proof -
    have "j < length ham" using that shape by (simp add: ham_shape_def)
    then show ?thesis by (simp add: fold_rows_nth)
  qed
  then show "\<exists>start stop ham'.
             distribute (int (length ps)) (int p) (int i) = Inr (int start, int stop)
             \<and> worker p (length ps) ndims nop ps i ham = Inr ham'
             \<and> ham_shape (length ps) ham'
             \<and> (\<forall>j<length ps. ham' ! j =
                   (if start \<le> j \<and> j < stop then ham_row ndims nop ps j else ham ! j))"
    using d w by blast
next
  fix i assume i: "i < p"
  have last: "n - (p - 1) * (n div p) = n div p + n mod p"
  proof -
    have "n = p * (n div p) + n mod p" by simp
    also have "p * (n div p) = (p - 1) * (n div p) + n div p"
      using assms(1) by (cases p) simp_all
    finally have "n = (p - 1) * (n div p) + (n div p + n mod p)" by simp
    then show ?thesis by linarith
  qed
  have "distribute (int n) (int p) (int i) = Inr (int (chunk_start n p i), int (chunk_stop n p i))"
    using assms(1) by (rule distribute_nat)
  moreover have "chunk_start n p i \<le> chunk_stop n p i" "chunk_stop n p i \<le> n"
    using i by (simp_all add: chunk_start_le_stop chunk_stop_le)
  moreover have "i = 0 \<longrightarrow> chunk_start n p i = 0" by (simp add: chunk_start_def)
  moreover have "Suc i = p \<longrightarrow> chunk_stop n p i = n
      \<and> chunk_stop n p i - chunk_start n p i = n div p + n mod p"
    using last by (auto simp: chunk_start_def chunk_stop_def)
  moreover have "Suc i < p \<longrightarrow> chunk_stop n p i - chunk_start n p i = n div p
      \<and> (\<exists>stop'. distribute (int n) (int p) (int (Suc i)) = Inr (int (chunk_stop n p i), stop'))"
    using distribute_nat [OF assms(1), of n "Suc i"]
    by (auto simp: chunk_contiguous) (simp add: chunk_start_def chunk_stop_def)
  ultimately show "\<exists>start stop.
          distribute (int n) (int p) (int i) = Inr (int start, int stop)
          \<and> start \<le> stop \<and> stop \<le> n
          \<and> (i = 0 \<longrightarrow> start = 0)
          \<and> (Suc i = p \<longrightarrow> stop = n \<and> stop - start = n div p + n mod p)
          \<and> (Suc i < p \<longrightarrow> stop - start = n div p
                \<and> (\<exists>stop'. distribute (int n) (int p) (int (Suc i)) = Inr (int stop, stop')))"
    by blast
next
  fix j assume j: "j < n"
  let ?in = "\<lambda>i. i < p \<and> (\<exists>start stop.
          distribute (int n) (int p) (int i) = Inr (start, stop)
          \<and> start \<le> int j \<and> int j < stop)"
  have iff: "?in i = (i < p \<and> chunk_start n p i \<le> j \<and> j < chunk_stop n p i)" for i
    using distribute_nat [OF assms(1), of n i] by auto
  obtain i where i: "i < p" "chunk_start n p i \<le> j" "j < chunk_stop n p i"
    using chunk_cover [OF assms(1) j] by blast
  have uniq: "i' = i" if "i' < p" "chunk_start n p i' \<le> j" "j < chunk_stop n p i'" for i'
  proof (rule ccontr)
    assume "i' \<noteq> i"
    then consider "i < i'" | "i' < i" by linarith
    then show False
      using chunk_disjoint [of i i' p n j] chunk_disjoint [of i' i p n j] i that by cases auto
  qed
  show "\<exists>!i. ?in i"
    unfolding iff using i uniq by blast
qed

theorem partition_not_observable_witness:
  "in_int32 2 \<and> list_all (list_all in_int32) [[1], [2], [3], [4]]
   \<and> hamiltonian_parallel 2 [1, 2, 3, 4] 2 1 = hamiltonian_parallel 3 [1, 2, 3, 4] 2 1
   \<and> hamiltonian_parallel 2 [1, 2, 3, 4] 2 1
       = Inr [[0, 1, 1, 0], [1, 0, 0, 1], [1, 0, 0, 1], [0, 1, 1, 0]]
   \<and> assemble 2 2 1 [[1], [2], [3], [4]]
       = Inr [[0, 1, 1, 0], [1, 0, 0, 1], [1, 0, 0, 1], [0, 1, 1, 0]]
   \<and> distribute 4 3 0 = Inr (0, 1) \<and> distribute 4 3 1 = Inr (1, 2)
   \<and> distribute 4 3 2 = Inr (2, 4)
   \<and> (\<exists>ham'. worker 2 4 2 1 [[1], [2], [3], [4]] 1 (replicate 4 (replicate 4 0)) = Inr ham'
         \<and> ham' ! 0 = [0, 0, 0, 0] \<and> ham' ! 1 = [0, 0, 0, 0]
         \<and> ham' ! 2 = [1, 0, 0, 1] \<and> ham' ! 3 = [0, 1, 1, 0])"
proof -
  let ?ps = "[[1], [2], [3], [4]] :: int list list"
  let ?H = "[[0, 1, 1, 0], [1, 0, 0, 1], [1, 0, 0, 1], [0, 1, 1, 0]] :: int list list"
  let ?Z = "replicate 4 (replicate 4 0) :: int list list"
  have hyp: "in_int32 2" "list_all (list_all in_int32) ?ps" by (simp_all add: in_int32_def)
  have pos: "0 < (2::nat)" "0 < (3::nat)" by simp_all
  note inst = partition_not_observable [of 2 3 2 ?ps "[1, 2, 3, 4]" 1 4, OF pos hyp]
  have ps: "position_states [1, 2, 3, 4] 1 None = Inr (?ps, 4)"
    by (simp add: position_states_def it_combinations_def np_array_int32_def in_int32_def)
  have m: "ham_matrix 2 1 ?ps = ?H"
    by (simp add: ham_matrix_def ham_cell_def intersect1d_def np_sum32_def i32_def np_mod_def)
  have rows: "ham_row 2 1 ?ps 2 = [1, 0, 0, 1]" "ham_row 2 1 ?ps 3 = [0, 1, 1, 0]"
    by (simp_all add: ham_row_def ham_cell_def intersect1d_def np_sum32_def i32_def np_mod_def)
  have d: "distribute 4 3 0 = Inr (0, 1)" "distribute 4 3 1 = Inr (1, 2)"
      "distribute 4 3 2 = Inr (2, 4)" "distribute 4 2 1 = Inr (2, 4)"
    by (simp_all add: distribute_def)
  have e: "hamiltonian_parallel 2 [1, 2, 3, 4] 2 1 = hamiltonian_parallel 3 [1, 2, 3, 4] 2 1"
    using inst [THEN conjunct1] .
  have h: "hamiltonian_parallel 2 [1, 2, 3, 4] 2 1 = Inr ?H"
    using inst [THEN conjunct2, THEN conjunct1] ps m by simp
  have a: "assemble 2 2 1 ?ps = Inr ?H"
    using inst [THEN conjunct2, THEN conjunct2, THEN conjunct2, THEN conjunct1] m by simp
  have len: "length ?ps = 4" by simp
  have sh: "ham_shape (length ?ps) ?Z" unfolding len by (rule ham_shape_zeros)
  have one: "1 < (2::nat)" by simp
  note wk = inst [THEN conjunct2, THEN conjunct2, THEN conjunct2, THEN conjunct2, THEN conjunct1,
      rule_format, of 1 ?Z, OF one sh]
  obtain start stop ham' where w:
      "distribute (int (length ?ps)) (int 2) (int 1) = Inr (int start, int stop)"
      "worker 2 (length ?ps) 2 1 ?ps 1 ?Z = Inr ham'"
      "\<forall>j<length ?ps. ham' ! j = (if start \<le> j \<and> j < stop then ham_row 2 1 ?ps j else ?Z ! j)"
    using wk by blast
  have "start = 2" "stop = 4" using w(1) d(4) by simp_all
  then have r: "ham' ! 0 = [0, 0, 0, 0]" "ham' ! 1 = [0, 0, 0, 0]"
      "ham' ! 2 = [1, 0, 0, 1]" "ham' ! 3 = [0, 1, 1, 0]"
    using w(3) rows by (simp_all add: numeral_eq_Suc)
  have w2: "worker 2 4 2 1 ?ps 1 ?Z = Inr ham'" using w(2) unfolding len .
  show ?thesis using hyp e h a d(1-3) w2 r by blast
qed

lemma hamiltonian_parallel_example:
  "hamiltonian_parallel 3 [1, 2, 3, 4] 2 1 = Inr [[0,1,1,0],[1,0,0,1],[1,0,0,1],[0,1,1,0]]"
  by (simp add: hamiltonian_parallel_assemble assemble_matrix position_states_def it_combinations_def
      np_array_int32_def in_int32_def
      ham_matrix_def ham_cell_def intersect1d_def np_sum32_def i32_def np_mod_def numeral_2_eq_2)

section \<open>The enumeration of the states\<close>

lemma length_combinations: "length (combinations xs r) = length xs choose r"
  by (induction xs r rule: combinations.induct) simp_all

lemma set_combinations: "set (combinations xs r) = {ys. subseq ys xs \<and> length ys = r}"
proof (induction xs r rule: combinations.induct)
  case (1 xs)
  then show ?case by auto
next
  case (2 r)
  then show ?case by auto
next
  case (3 x xs r)
  have eq: "set (combinations (x # xs) (Suc r))
      = (#) x ` {ys. subseq ys xs \<and> length ys = r} \<union> {ys. subseq ys xs \<and> length ys = Suc r}"
    using 3 by simp
  show ?case
  proof (intro set_eqI iffI)
    fix ys assume "ys \<in> set (combinations (x # xs) (Suc r))"
    then consider zs where "ys = x # zs" "subseq zs xs" "length zs = r"
      | "subseq ys xs" "length ys = Suc r"
      unfolding eq by blast
    then show "ys \<in> {ys. subseq ys (x # xs) \<and> length ys = Suc r}"
    proof cases
      case 1
      then show ?thesis by simp
    next
      case 2
      then show ?thesis by (simp add: list_emb_Cons)
    qed
  next
    fix ys assume "ys \<in> {ys. subseq ys (x # xs) \<and> length ys = Suc r}"
    then have s: "subseq ys (x # xs)" and l: "length ys = Suc r" by simp_all
    obtain y ys' where ys: "ys = y # ys'" using l by (cases ys) simp_all
    show "ys \<in> set (combinations (x # xs) (Suc r))"
    proof (cases "y = x")
      case True
      then have "subseq ys' xs" "length ys' = r" using s l ys by simp_all
      then show ?thesis unfolding eq using True ys by blast
    next
      case False
      then have "subseq ys xs" using s ys by simp
      then show ?thesis unfolding eq using l by blast
    qed
  qed
qed

lemma subseq_set_subset: "subseq ys xs \<Longrightarrow> set ys \<subseteq> set xs"
  by (induction ys xs rule: list_emb.induct) auto

lemma subseq_sorted_wrt: "subseq ys xs \<Longrightarrow> sorted_wrt P xs \<Longrightarrow> sorted_wrt P ys"
proof (induction ys xs rule: list_emb.induct)
  case (list_emb_Cons xs ys y)
  then show ?case by simp
next
  case (list_emb_Cons2 x y xs ys)
  then show ?case using subseq_set_subset [of xs ys] by auto
qed simp

lemma distinct_combinations: "distinct xs \<Longrightarrow> distinct (combinations xs r)"
proof (induction xs r rule: combinations.induct)
  case (3 x xs r)
  have "x \<notin> set ys" if "ys \<in> set (combinations xs (Suc r))" for ys
    using that 3(3) subseq_set_subset [of ys xs] by (auto simp: set_combinations)
  then have "x # zs \<notin> set (combinations xs (Suc r))" for zs
    by (metis list.set_intros(1))
  then have "set (map ((#) x) (combinations xs r)) \<inter> set (combinations xs (Suc r)) = {}"
    by auto
  moreover have "distinct (map ((#) x) (combinations xs r))"
    using 3 by (simp add: distinct_map)
  ultimately show ?case using 3 by simp
qed simp_all

lemma strict_subseq_iff:
  fixes xs :: "'a::linorder list"
  assumes "sorted_wrt (<) xs"
  shows "subseq ys xs = (sorted_wrt (<) ys \<and> set ys \<subseteq> set xs)"
proof
  assume "subseq ys xs"
  then show "sorted_wrt (<) ys \<and> set ys \<subseteq> set xs"
    using assms subseq_sorted_wrt subseq_set_subset by blast
next
  assume a: "sorted_wrt (<) ys \<and> set ys \<subseteq> set xs"
  have le: "sorted_wrt (\<le>) xs" using assms by (simp add: strict_sorted_iff)
  show "subseq ys xs"
    by (rule sorted_subset_imp_subseq [OF conjunct2 [OF a] conjunct1 [OF a] le])
qed



lemma np_delete_positions:
  assumes "\<forall>p\<in>set dp. 1 \<le> p \<and> p \<le> int (length lat)"
  shows "np_delete lat (map (\<lambda>p. p - 1) dp) = Inr (kept_labels lat dp)"
proof -
  have ok: "\<not> list_ex (\<lambda>i. i < - int (length lat) \<or> int (length lat) \<le> i) (map (\<lambda>p. p - 1) dp)"
    using assms by (auto simp: list_ex_iff)
  have "(i \<notin> set (map (\<lambda>i. nat (if i < 0 then i + int (length lat) else i)) (map (\<lambda>p. p - 1) dp)))
       = (int i + 1 \<notin> set dp)" for i
  proof -
    have "(i \<in> (\<lambda>p. nat (if p - 1 < 0 then p - 1 + int (length lat) else p - 1)) ` set dp)
        = (int i + 1 \<in> set dp)"
    proof
      assume "i \<in> (\<lambda>p. nat (if p - 1 < 0 then p - 1 + int (length lat) else p - 1)) ` set dp"
      then obtain p where p: "p \<in> set dp" "i = nat (if p - 1 < 0 then p - 1 + int (length lat) else p - 1)"
        by auto
      then have "int i + 1 = p" using assms by auto
      then show "int i + 1 \<in> set dp" using p by simp
    next
      assume "int i + 1 \<in> set dp"
      then show "i \<in> (\<lambda>p. nat (if p - 1 < 0 then p - 1 + int (length lat) else p - 1)) ` set dp"
        by (intro image_eqI [where x = "int i + 1"]) auto
    qed
    then show ?thesis by (simp add: image_image)
  qed
  then show ?thesis using ok by (simp add: np_delete_def kept_labels_def Let_def)
qed

lemma subseq_map_nth_filter: "subseq (map (\<lambda>i. xs ! i) (filter P [0..<length xs])) xs"
proof (induction xs rule: rev_induct)
  case Nil
  then show ?case by simp
next
  case (snoc x xs)
  let ?old = "map (\<lambda>i. xs ! i) (filter P [0..<length xs])"
  have same: "map (\<lambda>i. (xs @ [x]) ! i) (filter P [0..<length xs]) = ?old"
    by (rule map_cong) (auto simp: nth_append)
  have split: "filter P [0..<length (xs @ [x])]
      = filter P [0..<length xs] @ (if P (length xs) then [length xs] else [])"
    by simp
  have "map (\<lambda>i. (xs @ [x]) ! i) (filter P [0..<length (xs @ [x])])
      = ?old @ (if P (length xs) then [x] else [])"
    unfolding split map_append same by simp
  moreover have "subseq (?old @ (if P (length xs) then [x] else [])) (xs @ [x])"
    by (rule list_emb_append_mono [OF snoc]) simp
  ultimately show ?case by (simp only:)
qed

lemma kept_labels_subseq: "subseq (kept_labels lat dp) lat"
  unfolding kept_labels_def by (rule subseq_map_nth_filter)

lemma length_kept_labels:
  assumes "\<forall>p\<in>set dp. 1 \<le> p \<and> p \<le> int (length lat)"
  shows "length (kept_labels lat dp) = length lat - card (set dp)"
proof -
  let ?D = "{i. i < length lat \<and> int i + 1 \<in> set dp}"
  have "{i. i < length lat \<and> int ([0..<length lat] ! i) + 1 \<notin> set dp}
      = {i. i < length lat \<and> int i + 1 \<notin> set dp}" by auto
  then have "length (kept_labels lat dp) = card {i. i < length lat \<and> int i + 1 \<notin> set dp}"
    by (simp add: kept_labels_def length_filter_conv_card)
  also have "{i. i < length lat \<and> int i + 1 \<notin> set dp} = {..<length lat} - ?D" by auto
  also have "card ({..<length lat} - ?D) = length lat - card ?D"
    by (subst card_Diff_subset) auto
  also have "card ?D = card (set dp)"
  proof (rule bij_betw_same_card [of "\<lambda>i. int i + 1"])
    show "bij_betw (\<lambda>i. int i + 1) ?D (set dp)"
      unfolding bij_betw_def
    proof
      show "inj_on (\<lambda>i. int i + 1) ?D" by (auto simp: inj_on_def)
      show "(\<lambda>i. int i + 1) ` ?D = set dp"
      proof (intro set_eqI iffI)
        fix p assume "p \<in> set dp"
        then have "nat (p - 1) \<in> ?D" "p = int (nat (p - 1)) + 1" using assms by auto
        then show "p \<in> (\<lambda>i. int i + 1) ` ?D" by (rule_tac image_eqI)
      qed auto
    qed
  qed
  finally show ?thesis .
qed


lemma combinations_int32:
  "list_all in_int32 xs \<Longrightarrow> np_array_int32 (combinations xs r) = Inr (combinations xs r)"
proof -
  assume a: "list_all in_int32 xs"
  have "set ys \<subseteq> set xs" if "ys \<in> set (combinations xs r)" for ys
    using that subseq_set_subset [of ys xs] by (simp add: set_combinations)
  then show ?thesis using a by (auto simp: np_array_int32_def list_all_iff)
qed

text \<open>
  Claim C4. For a strictly ascending array of labels in the \<open>int32\<close> range, a particle
  count \<open>nop \<ge> 0\<close> and
  1-based deletion positions within the array, \<open>position_states\<close> returns the
  combinations of the labels left after striking the indices \<open>position - 1\<close>, together
  with their number. There are \<open>C(available, nop)\<close> of them, where \<open>available\<close> is
  the length of the array less the number of distinct positions; they are pairwise
  different, and they are exactly the strictly increasing tuples of \<open>nop\<close> labels
  drawn from the labels left.
\<close>
theorem position_states_enumeration:
  assumes "sorted_wrt (<) lat" "0 \<le> nop" "\<forall>p\<in>set dp. 1 \<le> p \<and> p \<le> int (length lat)"
    and "list_all in_int32 lat"
  shows "\<exists>states. position_states lat nop (Some dp) = Inr (states, length states)
           \<and> states = combinations (kept_labels lat dp) (nat nop)
           \<and> length (kept_labels lat dp) = length lat - card (set dp)
           \<and> length states = (length lat - card (set dp)) choose (nat nop)
           \<and> distinct states
           \<and> set states = {s. sorted_wrt (<) s \<and> set s \<subseteq> set (kept_labels lat dp)
                                \<and> length s = nat nop}"
proof -
  let ?kept = "kept_labels lat dp"
  let ?states = "combinations ?kept (nat nop)"
  have kept: "sorted_wrt (<) ?kept"
    using kept_labels_subseq assms(1) by (rule subseq_sorted_wrt)
  have "list_all in_int32 ?kept"
    using assms(4) subseq_set_subset [OF kept_labels_subseq, of lat dp]
    by (auto simp: list_all_iff)
  then have "np_array_int32 ?states = Inr ?states"
    by (rule combinations_int32)
  then have "position_states lat nop (Some dp) = Inr (?states, length ?states)"
    using assms(2) np_delete_positions [OF assms(3)]
    by (simp add: position_states_def it_combinations_def)
  moreover have "length ?kept = length lat - card (set dp)"
    using assms(3) by (rule length_kept_labels)
  moreover have "length ?states = (length lat - card (set dp)) choose (nat nop)"
    using length_kept_labels [OF assms(3)] by (simp add: length_combinations)
  moreover have "distinct ?states"
    using kept by (intro distinct_combinations) (simp add: strict_sorted_iff)
  moreover have "set ?states = {s. sorted_wrt (<) s \<and> set s \<subseteq> set ?kept \<and> length s = nat nop}"
    by (simp add: set_combinations strict_subseq_iff [OF kept])
  ultimately show ?thesis by blast
qed

theorem position_states_enumeration_witness:
  "position_states [1, 2, 3, 4] 2 (Some [2, 2]) = Inr ([[1, 3], [1, 4], [3, 4]], 3)
   \<and> kept_labels [1, 2, 3, 4] [2, 2] = [1, 3, 4]"
proof -
  have k: "kept_labels [1, 2, 3, 4] [2, 2] = [1, 3, 4]"
    by (simp add: kept_labels_def upt_rec)
  have c: "combinations [1, 3, 4 :: int] (nat 2) = [[1, 3], [1, 4], [3, 4]]"
    by (simp add: numeral_2_eq_2)
  show ?thesis
    using position_states_enumeration [of "[1, 2, 3, 4]" 2 "[2, 2]"] k c
    by (auto simp: in_int32_def)
qed

section \<open>The order of the eigenvalues\<close>

lemma argsort_perm: "mset (argsort a) = mset [0..<length a]"
  by (simp add: argsort_def)

lemma argsort_sorted: "sorted (map (\<lambda>i. a ! i) (argsort a))"
  by (simp add: argsort_def sorted_sort_key)

lemma argsort_bound: "i < length a \<Longrightarrow> argsort a ! i < length a"
proof -
  assume i: "i < length a"
  have "length (argsort a) = length a" by (simp add: argsort_def)
  then have "argsort a ! i \<in> set (argsort a)" using i by simp
  also have "set (argsort a) = {0..<length a}" by (simp add: argsort_def)
  finally show ?thesis by simp
qed

text \<open>
  Claim C8. Whatever eigenvalues \<open>w\<close> and matrix \<open>v\<close> of eigenvector columns the solver
  returns for \<open>h\<close> (one column per eigenvalue), \<open>diagonalize\<close> returns the real parts of
  the eigenvalues in non-decreasing order, and one permutation \<open>index\<close> of the positions
  gives both results: the \<open>i\<close>-th value returned is the real part of eigenvalue
  \<open>index ! i\<close>, and the \<open>i\<close>-th column returned is column \<open>index ! i\<close> of \<open>v\<close>.
\<close>
theorem diagonalize_sorted_paired:
  assumes "eig h = (w, v)" "\<forall>row\<in>set v. length row = length w"
  shows "\<exists>vals vecs index. diagonalize eig h = (vals, vecs)
           \<and> sorted vals
           \<and> mset index = mset [0..<length w]
           \<and> length vals = length w
           \<and> length vecs = length v
           \<and> (\<forall>i<length w. index ! i < length w \<and> vals ! i = Re (w ! (index ! i)))
           \<and> (\<forall>r<length v. length (vecs ! r) = length w
                  \<and> (\<forall>i<length w. vecs ! r ! i = v ! r ! (index ! i)))"
proof -
  let ?re = "map Re w"
  let ?index = "argsort ?re"
  let ?vals = "map (\<lambda>i. ?re ! i) ?index"
  let ?vecs = "take_columns v ?index"
  have len: "length ?index = length w" by (simp add: argsort_def)
  have d: "diagonalize eig h = (?vals, ?vecs)"
    using assms(1) by (simp add: diagonalize_def Let_def)
  have s: "sorted ?vals" by (rule argsort_sorted)
  have p: "mset ?index = mset [0..<length w]" using argsort_perm [of ?re] by simp
  have b: "?index ! i < length w" if "i < length w" for i
    using argsort_bound [of i ?re] that by simp
  have v: "?vals ! i = Re (w ! (?index ! i))" if "i < length w" for i
    using that b len by simp
  have c: "length (?vecs ! r) = length w \<and> (\<forall>i<length w. ?vecs ! r ! i = v ! r ! (?index ! i))"
    if "r < length v" for r
    using that len by (simp add: take_columns_def)
  have "length ?vals = length w" "length ?vecs = length v"
    using len by (simp_all add: take_columns_def)
  then show ?thesis using d s p b v c by blast
qed

theorem diagonalize_sorted_paired_witness:
  "diagonalize (\<lambda>h. ([3, 1, 2], [[10, 20, 30], [40, 50, 60], [70, 80, 90]])) ()
     = ([1, 2, 3], [[20, 30, 10], [50, 60, 40], [80, 90, 70]])
   \<and> sorted [1, 2, 3 :: real]"
proof -
  let ?eig = "\<lambda>h :: unit. ([3, 1, 2] :: complex list, [[10, 20, 30], [40, 50, 60], [70, 80, 90]] :: complex list list)"
  have a: "argsort [3, 1, 2] = [1, 2, 0]"
    by (simp add: argsort_def upt_rec)
  have "diagonalize ?eig () = ([1, 2, 3], [[20, 30, 10], [50, 60, 40], [80, 90, 70]])"
    by (simp add: diagonalize_def Let_def a take_columns_def)
  then show ?thesis
    using diagonalize_sorted_paired [of ?eig "()" "[3, 1, 2]" "[[10, 20, 30], [40, 50, 60], [70, 80, 90]]"]
    by auto
qed

section \<open>The thermalization check\<close>











lemma naive_thermal_one_by_one:
  "naive_thermal [FloatArray [[Some 3]]] 0
     = Inr ((FloatScalar (Some 3), FloatScalar None), [FloatArray [[Some 3]], FloatArray [[None]]])"
  by (simp add: naive_thermal_def np_max_def diagonal_def np_copy_def
      fill_diagonal_neg_inf_def fill_rows_def)

section \<open>The relabelling\<close>

lemma ncr_choose:
  assumes "0 \<le> r" "r \<le> n"
  shows "ncr n r = Inr (int (nat n choose nat r))"
proof -
  have "nat r \<le> nat n" using assms by simp
  then have "nat n choose nat r = fact (nat n) div (fact (nat r) * fact (nat n - nat r))"
    by (rule binomial_fact')
  moreover have "nat (n - r) = nat n - nat r" using assms by simp
  ultimately show ?thesis using assms by (simp add: ncr_def)
qed

lemma class_count_le: "class_count lat_a n states \<le> length states"
  by (simp add: class_count_def)

lemma finite_patterns: "finite (patterns lat_a n states)"
  by (simp add: patterns_def)

lemma card_patterns_le: "card (patterns lat_a n states) \<le> length states"
proof -
  have "card (patterns lat_a n states) \<le> length (filter (\<lambda>c. length c = n) (map (comm_of lat_a) states))"
    unfolding patterns_def by (rule card_length)
  also have "\<dots> \<le> length states" by (metis length_filter_le length_map)
  finally show ?thesis .
qed

lemma patterns_snoc:
  "patterns lat_a n (states @ [s]) =
     (if length (comm_of lat_a s) = n then insert (comm_of lat_a s) (patterns lat_a n states)
      else patterns lat_a n states)"
  by (auto simp: patterns_def)

lemma class_count_snoc:
  "class_count lat_a n (states @ [s]) =
     (if length (comm_of lat_a s) = n then Suc (class_count lat_a n states)
      else class_count lat_a n states)"
  by (simp add: class_count_def)

lemma patterns_mono: "patterns lat_a n (take i states) \<subseteq> patterns lat_a n states"
  unfolding patterns_def by (auto dest: in_set_takeD)

lemma expected_row_snoc:
  "i < length states \<Longrightarrow>
   expected_row lat_a nop nol_b (states @ [s]) i = expected_row lat_a nop nol_b states i"
  by (simp add: expected_row_def nth_append)

lemma i32_small: "0 \<le> x \<Longrightarrow> x < 2 ^ 31 \<Longrightarrow> i32 x = x"
  by (simp add: i32_def)

lemma relabel_body_step:
  assumes inv: "relabel_inv lat_a nop nol_b done v"
    and len: "length done + 1 < 2 ^ 31"
    and n1: "int (length (comm_of lat_a s)) \<le> nop"
    and n2: "nop - int (length (comm_of lat_a s)) \<le> nol_b"
  shows "\<exists>v'. relabel_body nop nol_b lat_a s v = Inr v' \<and> relabel_inv lat_a nop nol_b (done @ [s]) v'"
proof -
  let ?comm = "comm_of lat_a s"
  let ?n = "length ?comm"
  let ?L = "nat (nop + 1)"
  let ?N = "\<lambda>n. nat nol_b choose (nat nop - n)"
  let ?cc = "\<lambda>n. class_count lat_a n done"
  let ?cp = "\<lambda>n. card (patterns lat_a n done)"
  have nL: "?n < ?L" using n1 by simp
  have "int (length done + 1) < int (2 ^ 31)" using len by (simp only: of_nat_less_iff)
  then have leni: "int (length done) + 1 < 2 ^ 31" by simp
  have l0: "length (x0 v) = ?L" and l1: "length (x1 v) = ?L"
    and dmp: "set (dump v) = set (map (comm_of lat_a) done)"
    and out: "relabelled_states v = map (expected_row lat_a nop nol_b done) [0..<length done]"
    using inv by (simp_all add: relabel_inv_def)
  have x0n: "x0 v ! n = int (?cp n)" and x1n: "x1 v ! n = int (?cc n mod ?N n)" if "n < ?L" for n
    using inv that by (simp_all add: relabel_inv_def)
  have Npos: "0 < ?N ?n"
  proof -
    have "nat nop - ?n \<le> nat nol_b" using n1 n2 by linarith
    then show ?thesis by (simp add: zero_less_binomial_iff)
  qed
  have ncr: "ncr nol_b (nop - int ?n) = Inr (int (?N ?n))"
  proof -
    have "nat (nop - int ?n) = nat nop - ?n" using n1 by simp
    then show ?thesis using ncr_choose [of "nop - int ?n" nol_b] n1 n2 by simp
  qed
  text \<open>The two counters after the increments.\<close>
  have b1: "i32 (x1 v ! ?n + 1) = int (?cc ?n mod ?N ?n) + 1"
  proof -
    have "?cc ?n mod ?N ?n \<le> length done"
      using class_count_le [of lat_a ?n "done"] mod_less_eq_dividend [of "?cc ?n" "?N ?n"] by linarith
    then have "int (?cc ?n mod ?N ?n) + 1 < 2 ^ 31" using leni by linarith
    then show ?thesis using x1n [OF nL] by (simp add: i32_small)
  qed
  have a1: "i32 (x0 v ! ?n + 1) = int (?cp ?n) + 1"
  proof -
    have "int (?cp ?n) + 1 < 2 ^ 31" using card_patterns_le [of lat_a ?n "done"] leni by linarith
    then show ?thesis using x0n [OF nL] by (simp add: i32_small)
  qed
  define new where "new = (?comm \<notin> set (dump v))"
  define x1' where "x1' = (x1 v)[?n := int (?cc ?n mod ?N ?n) + 1]"
  define x0' where "x0' = (if new then (x0 v)[?n := int (?cp ?n) + 1] else x0 v)"
  define dump' where "dump' = (if new then dump v @ [?comm] else dump v)"
  define x1'' where "x1'' = (if x1' ! ?n = int (?N ?n) then x1'[?n := 0] else x1')"
  define v' where "v' = \<lparr>x0 = x0', x1 = x1'', dump = dump',
      relabelled_states = relabelled_states v @ [(x0' ! ?n, int ?n, x1' ! ?n)]\<rparr>"
  have run: "relabel_body nop nol_b lat_a s v = Inr v'"
    using nL l1 ncr
    by (simp add: relabel_body_def Let_def b1 a1 v'_def x0'_def x1'_def x1''_def dump'_def new_def)
  have newp: "new = (?comm \<notin> patterns lat_a ?n done)"
    by (auto simp: new_def dmp patterns_def)
  have cp': "card (patterns lat_a n (done @ [s])) = (if n = ?n \<and> new then ?cp n + 1 else ?cp n)" for n
    using finite_patterns [of lat_a n "done"]
    by (auto simp: patterns_snoc newp card_insert_if)
  have cc': "class_count lat_a n (done @ [s]) mod ?N n
      = (if n = ?n then (if ?cc n mod ?N n + 1 = ?N n then 0 else ?cc n mod ?N n + 1)
         else ?cc n mod ?N n)" for n
    by (simp add: class_count_snoc mod_Suc)
  have x0'n: "x0' ! n = int (card (patterns lat_a n (done @ [s])))" if "n < ?L" for n
    using that l0 x0n [OF that] by (simp add: x0'_def cp' nth_list_update)
  have x1'n: "x1' ! ?n = int (?cc ?n mod ?N ?n) + 1"
    using nL l1 by (simp add: x1'_def)
  have x1''n: "x1'' ! n = int (class_count lat_a n (done @ [s]) mod ?N n)" if "n < ?L" for n
  proof (cases "n = ?n")
    case True
    then show ?thesis using nL l1 x1'n by (simp add: x1''_def cc' x1'_def)
  next
    case False
    then show ?thesis using that l1 x1n [OF that] by (simp add: x1''_def cc' x1'_def)
  qed
  have row: "(x0' ! ?n, int ?n, x1' ! ?n) = expected_row lat_a nop nol_b (done @ [s]) (length done)"
    using x0'n [OF nL] x1'n by (simp add: expected_row_def Let_def)
  have "relabelled_states v' = map (expected_row lat_a nop nol_b (done @ [s])) [0..<length (done @ [s])]"
    using out row by (simp add: v'_def expected_row_snoc)
  moreover have "set (dump v') = set (map (comm_of lat_a) (done @ [s]))"
    using dmp by (auto simp: v'_def dump'_def new_def)
  moreover have "length (x0 v') = ?L" "length (x1 v') = ?L"
    using l0 l1 by (simp_all add: v'_def x0'_def x1''_def x1'_def)
  moreover have "\<forall>n<?L. x0 v' ! n = int (card (patterns lat_a n (done @ [s])))
      \<and> x1 v' ! n = int (class_count lat_a n (done @ [s]) mod ?N n)"
    using x0'n x1''n by (simp add: v'_def)
  ultimately have "relabel_inv lat_a nop nol_b (done @ [s]) v'"
    unfolding relabel_inv_def by blast
  then show ?thesis using run by blast
qed

lemma relabel_loop:
  assumes "relabel_inv lat_a nop nol_b done v"
    and "length done + length rest < 2 ^ 31"
    and "\<forall>s\<in>set rest. int (length (comm_of lat_a s)) \<le> nop
            \<and> nop - int (length (comm_of lat_a s)) \<le> nol_b"
  shows "\<exists>v'. for_each (relabel_body nop nol_b lat_a) rest v = Inr v'
           \<and> relabel_inv lat_a nop nol_b (done @ rest) v'"
  using assms
proof (induction rest arbitrary: "done" v)
  case Nil
  then show ?case by simp
next
  case (Cons s rest)
  obtain v1 where v1: "relabel_body nop nol_b lat_a s v = Inr v1"
      "relabel_inv lat_a nop nol_b (done @ [s]) v1"
    using relabel_body_step [of lat_a nop nol_b "done" v s] Cons.prems by auto
  obtain v' where "for_each (relabel_body nop nol_b lat_a) rest v1 = Inr v'"
      "relabel_inv lat_a nop nol_b ((done @ [s]) @ rest) v'"
    using Cons.IH [OF v1(2)] Cons.prems by auto
  then show ?case using v1(1) by simp
qed

lemma relabel_inv_init:
  "0 \<le> nop \<Longrightarrow> relabel_inv lat_a nop nol_b []
     \<lparr>x0 = replicate (nat (nop + 1)) 0, x1 = replicate (nat (nop + 1)) 0, dump = [],
      relabelled_states = []\<rparr>"
  by (simp add: relabel_inv_def patterns_def class_count_def)

lemma relabel_rows:
  assumes "length e_states < 2 ^ 31" "0 \<le> nop"
    and "\<forall>s\<in>set e_states. int (length (comm_of lat_a s)) \<le> nop
            \<and> nop - int (length (comm_of lat_a s)) \<le> nol_b"
  shows "relabel e_states nop nol_b lat_a
       = Inr (map (expected_row lat_a nop nol_b e_states) [0..<length e_states])"
proof -
  obtain v' where v': "for_each (relabel_body nop nol_b lat_a) e_states
        \<lparr>x0 = replicate (nat (nop + 1)) 0, x1 = replicate (nat (nop + 1)) 0, dump = [],
         relabelled_states = []\<rparr> = Inr v'"
      "relabel_inv lat_a nop nol_b ([] @ e_states) v'"
    using relabel_loop [OF relabel_inv_init [OF assms(2)], of e_states lat_a nol_b] assms(1,3)
    by auto
  then show ?thesis using assms(2) by (simp add: relabel_def relabel_inv_def)
qed

text \<open>
  Claim C5. For a list of fewer than \<open>2 ^ 31\<close> states in each of which the number \<open>n\<close>
  of particles in sub-lattice A is at most \<open>nop\<close> and the other \<open>nop - n\<close> particles fit
  the \<open>nol_b\<close> sites of B, \<open>relabel\<close> returns one record per state, in the order of
  the states. The record of state \<open>i\<close>, of class \<open>n\<close>, is \<open>(a, n, b)\<close>, where \<open>a\<close> is
  the number of distinct A-patterns of class \<open>n\<close> among the states up to \<open>i\<close>, hence
  between 1 and the number of distinct patterns of that class, and \<open>b\<close> is one more than
  the number of earlier states of class \<open>n\<close> modulo \<open>N = C(nol_b, nop - n)\<close>: it runs
  through \<open>1, \<dots>, N\<close> and starts again at 1 after it has reached \<open>N\<close>.
\<close>
theorem relabel_counts_cycle:
  assumes "length e_states < 2 ^ 31" "0 \<le> nop"
    and "\<forall>s\<in>set e_states. int (length (comm_of lat_a s)) \<le> nop
            \<and> nop - int (length (comm_of lat_a s)) \<le> nol_b"
  shows "\<exists>rows. relabel e_states nop nol_b lat_a = Inr rows
           \<and> length rows = length e_states
           \<and> (\<forall>i<length e_states. \<exists>a b n N.
                 n = length (comm_of lat_a (e_states ! i))
                 \<and> ncr nol_b (nop - int n) = Inr (int N)
                 \<and> rows ! i = (a, int n, b)
                 \<and> a = int (card (patterns lat_a n (take (Suc i) e_states)))
                 \<and> 1 \<le> a \<and> a \<le> int (card (patterns lat_a n e_states))
                 \<and> b = int (class_count lat_a n (take i e_states) mod N) + 1
                 \<and> 1 \<le> b \<and> b \<le> int N)"
proof -
  let ?rows = "map (expected_row lat_a nop nol_b e_states) [0..<length e_states]"
  have run: "relabel e_states nop nol_b lat_a = Inr ?rows"
    using assms by (rule relabel_rows)
  have row: "\<exists>a b n N.
                 n = length (comm_of lat_a (e_states ! i))
                 \<and> ncr nol_b (nop - int n) = Inr (int N)
                 \<and> ?rows ! i = (a, int n, b)
                 \<and> a = int (card (patterns lat_a n (take (Suc i) e_states)))
                 \<and> 1 \<le> a \<and> a \<le> int (card (patterns lat_a n e_states))
                 \<and> b = int (class_count lat_a n (take i e_states) mod N) + 1
                 \<and> 1 \<le> b \<and> b \<le> int N" if i: "i < length e_states" for i
  proof -
    let ?n = "length (comm_of lat_a (e_states ! i))"
    let ?N = "nat nol_b choose (nat nop - ?n)"
    let ?a = "int (card (patterns lat_a ?n (take (Suc i) e_states)))"
    let ?b = "int (class_count lat_a ?n (take i e_states) mod ?N) + 1"
    have s: "int ?n \<le> nop" "nop - int ?n \<le> nol_b" using assms(3) i by simp_all
    have "nat (nop - int ?n) = nat nop - ?n" using s by simp
    then have ncr: "ncr nol_b (nop - int ?n) = Inr (int ?N)"
      using ncr_choose [of "nop - int ?n" nol_b] s by simp
    have "nat nop - ?n \<le> nat nol_b" using s by linarith
    then have Npos: "0 < ?N" by (simp add: zero_less_binomial_iff)
    have "comm_of lat_a (e_states ! i) \<in> patterns lat_a ?n (take (Suc i) e_states)"
      using i by (simp add: patterns_def take_Suc_conv_app_nth)
    then have "0 < card (patterns lat_a ?n (take (Suc i) e_states))"
      using finite_patterns card_gt_0_iff by blast
    then have a1: "1 \<le> ?a" by simp
    have a2: "?a \<le> int (card (patterns lat_a ?n e_states))"
      using card_mono [OF finite_patterns patterns_mono, of lat_a ?n "Suc i" e_states] by simp
    have b2: "?b \<le> int ?N"
      using mod_less_divisor [OF Npos, of "class_count lat_a ?n (take i e_states)"] by linarith
    have r: "?rows ! i = (?a, int ?n, ?b)" using i by (simp add: expected_row_def Let_def)
    show ?thesis using ncr r a1 a2 b2 by (intro exI [of _ ?a] exI [of _ ?b] exI [of _ ?n] exI [of _ ?N]) simp
  qed
  show ?thesis using run row by (intro exI [of _ ?rows]) simp
qed

lemma relabel_example:
  "relabel [[1, 2], [1, 3], [1, 4], [2, 3], [2, 4], [3, 4]] 2 2 [2, 3]
     = Inr [(1, 1, 1), (2, 1, 2), (1, 0, 1), (1, 2, 1), (2, 1, 1), (2, 1, 2)]"
  by (simp add: relabel_def relabel_body_def comm_of_def ncr_def i32_def Let_def
      numeral_2_eq_2 numeral_3_eq_3)

theorem relabel_counts_cycle_witness:
  "relabel [[1, 2], [1, 3], [1, 4], [2, 3], [2, 4], [3, 4]] 2 2 [2, 3]
     = Inr [(1, 1, 1), (2, 1, 2), (1, 0, 1), (1, 2, 1), (2, 1, 1), (2, 1, 2)]
   \<and> ncr 2 1 = Inr 2"
proof -
  let ?st = "[[1, 2], [1, 3], [1, 4], [2, 3], [2, 4], [3, 4]] :: int list list"
  have h: "\<forall>s\<in>set ?st. int (length (comm_of [2, 3] s)) \<le> 2 \<and> 2 - int (length (comm_of [2, 3] s)) \<le> 2"
    by (simp add: comm_of_def)
  have l: "length ?st < 2 ^ 31" by simp
  obtain rows where "relabel ?st 2 2 [2, 3] = Inr rows" "length rows = length ?st"
    using relabel_counts_cycle [OF l _ h] by auto
  then show ?thesis using relabel_example by (simp add: ncr_def numeral_2_eq_2)
qed

section \<open>The indices of the reduced density matrices\<close>
































section \<open>The reduced density matrices\<close>

lemma density_matrix_a_example:
  "density_matrix_a [(1, 1, 1), (2, 1, 2), (1, 0, 1), (1, 2, 1), (2, 1, 1), (2, 1, 2)]
     [0, 3 / 5, 0, 0, 0, 4 / 5] 6 2 2 = Inl TypeError"
  by (simp add: density_matrix_a_def sum_ncr_def ncr_def density_matrix_a_body_def item_def
      accumulate_def np_index_def vdot_def np_trace_real_def warnings_warn_def Let_def
      upt_rec numeral_2_eq_2 numeral_3_eq_3)

lemma rho_b_pbasis_example:
  "rho_b_pbasis [(1, 1, 1), (2, 1, 2), (1, 0, 1), (1, 2, 1), (2, 1, 1), (2, 1, 2)]
     [0, 3 / 5, 0, 0, 0, 4 / 5] 6 2 2
   = Inr ([[0, 0, 0, 0], [0, 0, 0, 0], [0, 0, 49 / 25, 0], [0, 0, 0, 0]],
          [''WARNING: Trace of density matrix B not 1, Trace=''])"
  by (simp add: rho_b_pbasis_def sum_ncr_def ncr_def rho_b_pbasis_body_def item_def
      accumulate_def np_index_def vdot_def np_trace_real_def Let_def
      upt_rec eval_nat_numeral)


text \<open>\<open>density_matrix_a\<close> never returns with a warning: where the trace is off by more
  than 0.1, the call of \<open>warnings.warn\<close> raises.\<close>

lemma density_matrix_a_never_warns:
  "density_matrix_a label e_vec nos nol_a nop = Inr (mat, ws) \<Longrightarrow>
     ws = [] \<and> \<bar>np_trace_real mat - 1\<bar> \<le> 1 / 10"
  by (auto simp: density_matrix_a_def warnings_warn_def Let_def split: sum.splits if_splits)

text \<open>
  Claim C3 at a joint state space of two particles on the sites \<open>1, 2, 3, 4\<close> with
  \<open>A = {2, 3}\<close>, its table from \<open>relabel\<close> and the unit vector with the coefficients
  \<open>3/5\<close> and \<open>4/5\<close> on the states \<open>(1, 3)\<close> and \<open>(3, 4)\<close>: both reduced density
  matrices have trace \<open>49/25\<close>. \<open>rho_b_pbasis\<close> prints its warning and returns the
  matrix; \<open>density_matrix_a\<close> raises \<open>TypeError\<close>, because it passes the trace to
  \<open>warnings.warn\<close> as the warning category.
\<close>
theorem trace_warning_fatal_in_density_matrix_a:
  "relabel [[1, 2], [1, 3], [1, 4], [2, 3], [2, 4], [3, 4]] 2 2 [2, 3]
     = Inr [(1, 1, 1), (2, 1, 2), (1, 0, 1), (1, 2, 1), (2, 1, 1), (2, 1, 2)]
   \<and> rho_b_pbasis [(1, 1, 1), (2, 1, 2), (1, 0, 1), (1, 2, 1), (2, 1, 1), (2, 1, 2)]
         [0, 3 / 5, 0, 0, 0, 4 / 5] 6 2 2
       = Inr ([[0, 0, 0, 0], [0, 0, 0, 0], [0, 0, 49 / 25, 0], [0, 0, 0, 0]],
              [''WARNING: Trace of density matrix B not 1, Trace=''])
   \<and> density_matrix_a [(1, 1, 1), (2, 1, 2), (1, 0, 1), (1, 2, 1), (2, 1, 1), (2, 1, 2)]
         [0, 3 / 5, 0, 0, 0, 4 / 5] 6 2 2
       = Inl TypeError"
  using relabel_example rho_b_pbasis_example density_matrix_a_example by simp













end
